theory Spec2Isabelle
  imports Main
begin

section \<open>The execd input plugin (plugins/inputs/execd/execd.go)\<close>

text \<open>
  The plugin launches an external command, turns its standard output into metrics and
  its standard error into log lines. This theory embeds the plugin's functions
  \<open>Init\<close>, \<open>SetParser\<close>, \<open>Start\<close>, \<open>Stop\<close>, \<open>cmdReadOut\<close>, \<open>cmdReadOutStream\<close> and
  \<open>cmdReadErr\<close>, together with the parts of Go's \<open>bufio\<close> and \<open>errors\<close> packages they
  run on.

  Bytes and Go strings are \<open>string\<close> (a list of 8-bit characters). The accumulator, the
  logger and the parser are interfaces the plugin only calls: every call is recorded, in
  program order, as an event of the \<open>world\<close>.
\<close>

subsection \<open>Errors\<close>

text \<open>
  Go errors are values, compared by identity with the sentinels of the standard library
  and of the influx parser. \<open>Errorf p e\<close> is \<open>fmt.Errorf(p + "%w", e)\<close>: a new error that
  wraps \<open>e\<close>. \<open>ParseError\<close> is a value of type \<open>*influx.ParseError\<close>; \<open>ErrorNew\<close> is any
  other error without a wrapped cause.
\<close>

datatype error =
    io_EOF
  | os_ErrClosed
  | io_ErrNoProgress
  | bufio_ErrBufferFull
  | bufio_ErrTooLong
  | influx_EOF
  | ParseError string
  | ErrorNew string
  | Errorf string error

text \<open>\<open>errors.Is\<close>: the error or one of the errors it wraps is the target.\<close>

fun errors_Is :: "error \<Rightarrow> error \<Rightarrow> bool" where
  "errors_Is (Errorf p e) target = (Errorf p e = target \<or> errors_Is e target)"
| "errors_Is e target = (e = target)"

text \<open>\<open>errors.As\<close> with a target of type \<open>*influx.ParseError\<close>: the first error of the
  chain that has this type.\<close>

fun errors_As_ParseError :: "error \<Rightarrow> error option" where
  "errors_As_ParseError (ParseError m) = Some (ParseError m)"
| "errors_As_ParseError (Errorf p e) = errors_As_ParseError e"
| "errors_As_ParseError e = None"

subsection \<open>The sinks and the process-wide once flag\<close>

text \<open>
  One event per call the plugin makes on its collaborators: \<open>e.parser.Parse(data)\<close>,
  \<open>e.acc.AddError\<close>, \<open>e.acc.AddMetric\<close>, and the leveled methods of \<open>e.Log\<close>.
  \<open>Log_Errorf f a\<close> is the call \<open>e.Log.Errorf(f, a)\<close>, the format still unapplied.
\<close>

datatype 'm event =
    Parser_Parse string
  | AddError error
  | AddMetric 'm
  | Log_Error string
  | Log_Errorf string string
  | Log_Warn string
  | Log_Info string
  | Log_Debug string
  | Log_Trace string

text \<open>
  The state outside the plugin instances: the calls made so far, oldest first, and the
  package variable \<open>var once sync.Once\<close> (true once its \<open>Do\<close> has run a function). There
  is one \<open>once\<close> per process, shared by every instance.
\<close>

record 'm world =
  events :: "'m event list"
  once :: bool

definition emit :: "'m event \<Rightarrow> 'm world \<Rightarrow> 'm world" where
  "emit ev w = w\<lparr>events := events w @ [ev]\<rparr>"

text \<open>\<open>once.Do(f)\<close>: runs \<open>f\<close> if no call of \<open>Do\<close> has run a function yet, and marks the
  flag.\<close>

definition once_Do :: "('m world \<Rightarrow> 'm world) \<Rightarrow> 'm world \<Rightarrow> 'm world" where
  "once_Do f w = (if once w then w else (f w)\<lparr>once := True\<rparr>)"

text \<open>\<open>internal.NoMetricsCreatedMsg\<close>, a string constant of package \<open>internal\<close>. The
  plugin passes it on and never inspects it.\<close>

definition NoMetricsCreatedMsg :: string where
  "NoMetricsCreatedMsg =
     ''No metrics were created from a message. Verify your parser settings. This message is only printed once.''"

subsection \<open>The plugin instance\<close>

text \<open>
  The dynamic type of the value held by a \<open>telegraf.Parser\<close> interface, as far as
  \<open>SetParser\<close> looks: a \<open>*models.RunningParser\<close> with the parser it wraps, an
  \<open>*influx.Parser\<close>, any other parser type (by name), or the nil interface. Pointers are
  taken to be non-nil.
\<close>

datatype parser_value =
    models_RunningParser parser_value
  | influx_Parser
  | other_Parser string
  | nil_Parser

text \<open>The methods an instance can install as reader of a stream.\<close>

datatype reader_fn = fn_cmdReadOut | fn_cmdReadOutStream | fn_cmdReadErr

text \<open>The fields of \<open>process.Process\<close> that \<open>Start\<close> writes, and whether the process
  has been started.\<close>

record process =
  Cmd :: "string list"
  Env :: "string list"
  ReadStdoutFn :: "reader_fn option"
  ReadStderrFn :: "reader_fn option"
  proc_RestartDelay :: int
  proc_StopOnError :: bool
  running :: bool

record Execd =
  Command :: "string list"
  Environment :: "string list"
  BufferSize :: int
  Signal :: string
  RestartDelay :: int
  StopOnError :: bool
  process :: "process option"
  parser :: parser_value
  outputReader :: "reader_fn option"

text \<open>The instance the plugin registry builds (\<open>init\<close>), before the configuration is
  loaded into it: 10 seconds in nanoseconds, 64 KiB.\<close>

definition new_Execd :: Execd where
  "new_Execd = \<lparr>Command = [], Environment = [], BufferSize = 64 * 1024,
     Signal = ''none'', RestartDelay = 10 * 1000000000, StopOnError = False,
     process = None, parser = nil_Parser, outputReader = None\<rparr>"

definition Init :: "Execd \<Rightarrow> error option" where
  "Init e = (if length (Command e) = 0 then Some (ErrorNew ''no command specified'') else None)"

definition SetParser :: "Execd \<Rightarrow> parser_value \<Rightarrow> Execd" where
  "SetParser e p =
     (let e1 = e\<lparr>parser := p, outputReader := Some fn_cmdReadOut\<rparr>
      in case p of
           models_RunningParser unwrapped \<Rightarrow>
             (case unwrapped of
                influx_Parser \<Rightarrow> e1\<lparr>outputReader := Some fn_cmdReadOutStream\<rparr>
              | _ \<Rightarrow> e1)
         | _ \<Rightarrow> e1)"

text \<open>\<open>strings.Contains(s, " ")\<close>.\<close>

definition contains_space :: "string \<Rightarrow> bool" where
  "contains_space s = (CHR '' '' \<in> set s)"

definition spaces_warning :: string where
  "spaces_warning = ''The inputs.execd Command contained spaces but no arguments. '' @
     ''This setting expects the program and arguments as an array of strings, '' @
     ''not as a space-delimited string. See the plugin readme for an example.''"

text \<open>\<open>%s\<close> of a \<open>[]string\<close>: the elements between brackets, separated by spaces.\<close>

fun join_spaces :: "string list \<Rightarrow> string" where
  "join_spaces [] = []"
| "join_spaces [x] = x"
| "join_spaces (x # y # ys) = x @ '' '' @ join_spaces (y # ys)"

definition fmt_strings :: "string list \<Rightarrow> string" where
  "fmt_strings xs = ''['' @ join_spaces xs @ '']''"

text \<open>
  \<open>Start\<close>. The supervisor is outside this file: \<open>new_err\<close> is the error \<open>process.New\<close>
  returns and \<open>start_err\<close> the one \<open>e.process.Start()\<close> returns (\<open>None\<close> for nil). The
  result is the returned error and the instance.
\<close>

definition Start :: "Execd \<Rightarrow> error option \<Rightarrow> error option \<Rightarrow> 'm world
    \<Rightarrow> (error option \<times> Execd) \<times> 'm world" where
  "Start e new_err start_err w =
     (case new_err of
        Some err \<Rightarrow>
          ((Some (Errorf ''error creating new process: '' err), e\<lparr>process := None\<rparr>), w)
      | None \<Rightarrow>
          (let p = \<lparr>Cmd = Command e, Env = Environment e,
                    ReadStdoutFn = outputReader e, ReadStderrFn = Some fn_cmdReadErr,
                    proc_RestartDelay = RestartDelay e, proc_StopOnError = StopOnError e,
                    running = False\<rparr>
           in case start_err of
                Some err \<Rightarrow>
                  ((Some (Errorf (''failed to start process '' @ fmt_strings (Command e) @ '': '') err),
                    e\<lparr>process := Some p\<rparr>),
                   (if length (Command e) = 1 \<and> contains_space (Command e ! 0)
                    then emit (Log_Warn spaces_warning) w else w))
              | None \<Rightarrow> ((None, e\<lparr>process := Some (p\<lparr>running := True\<rparr>)\<rparr>), w)))"

text \<open>\<open>Stop\<close> asks the supervisor to stop the process; with no process (\<open>Start\<close> never
  succeeded in creating one) \<open>e.process\<close> is nil and the call panics, here \<open>None\<close>.\<close>

definition Stop :: "Execd \<Rightarrow> Execd option" where
  "Stop e = (case process e of
               None \<Rightarrow> None
             | Some p \<Rightarrow> Some (e\<lparr>process := Some (p\<lparr>running := False\<rparr>)\<rparr>))"

subsection \<open>The calls of a host on an instance\<close>

text \<open>
  The methods of an instance other than \<open>SetParser\<close>, as a host may call them in any
  order: \<open>Init\<close>, whose error goes to the caller and which leaves the instance as it is;
  \<open>Start\<close>, with the errors the supervisor returns; \<open>Stop\<close>. A run of calls ends in \<open>None\<close>
  when a call panics.
\<close>

datatype call = Call_Init | Call_Start "error option" "error option" | Call_Stop

fun run_calls :: "call list \<Rightarrow> Execd \<Rightarrow> 'm world \<Rightarrow> (Execd \<times> 'm world) option" where
  "run_calls [] e w = Some (e, w)"
| "run_calls (Call_Init # cs) e w = (case Init e of _ \<Rightarrow> run_calls cs e w)"
| "run_calls (Call_Start new_err start_err # cs) e w =
     (case Start e new_err start_err w of ((err, e'), w') \<Rightarrow> run_calls cs e' w')"
| "run_calls (Call_Stop # cs) e w =
     (case Stop e of None \<Rightarrow> None | Some e' \<Rightarrow> run_calls cs e' w)"

text \<open>
  Modelled from the spec: the host that owns the instance (the agent of the hosting
  process) is not part of this file. By sections 7 and 8 of the specification, a Config
  error is fatal at \<open>Init\<close> and surfaced to the caller before any process is spawned: the
  host calls \<open>Init\<close> and goes on to \<open>Start\<close> only when \<open>Init\<close> returned no error.
\<close>

definition host_init_start :: "Execd \<Rightarrow> error option \<Rightarrow> error option \<Rightarrow> 'm world
    \<Rightarrow> (error option \<times> Execd) \<times> 'm world" where
  "host_init_start e new_err start_err w =
     (case Init e of
        Some err \<Rightarrow> ((Some err, e), w)
      | None \<Rightarrow> Start e new_err start_err w)"

subsection \<open>The stream a reader function is given\<close>

text \<open>
  An \<open>io.Reader\<close> is modelled by what its successive \<open>Read\<close> calls will return: a list of
  responses, each some bytes and an error (\<open>None\<close> for nil). A \<open>Read\<close> into a slice of
  \<open>k\<close> bytes takes at most \<open>k\<close> bytes of the next response and leaves the rest, with the
  response's error, for the next call. After the last response the stream is at its end:
  every further \<open>Read\<close> returns no bytes and \<open>io.EOF\<close>.
\<close>

type_synonym io_Reader = "(string \<times> error option) list"

fun io_Read :: "nat \<Rightarrow> io_Reader \<Rightarrow> (string \<times> error option) \<times> io_Reader" where
  "io_Read k [] = (([], Some io_EOF), [])"
| "io_Read k ((d, e) # rest) =
     (if length d \<le> k then ((d, e), rest)
      else ((take k d, None), (drop k d, e) # rest))"

definition newline :: char where
  "newline = CHR 0x0A"

text \<open>\<open>bytes.IndexByte\<close>: the index of the first occurrence, \<open>None\<close> for -1.\<close>

fun IndexByte :: "string \<Rightarrow> char \<Rightarrow> nat option" where
  "IndexByte [] c = None"
| "IndexByte (x # xs) c = (if x = c then Some 0 else map_option Suc (IndexByte xs c))"

subsection \<open>bufio.Reader\<close>

text \<open>
  The state of a \<open>bufio.Reader\<close>: the underlying reader \<open>b.rd\<close>, the unread part of the
  buffer \<open>b.buf[b.r:b.w]\<close>, the size it was created with, and the pending error \<open>b.err\<close>.
  \<open>NewReaderSize\<close> allocates a buffer of at least 16 bytes: \<open>len_buf\<close> is \<open>len(b.buf)\<close>.
\<close>

record Reader =
  b_rd :: io_Reader
  b_buf :: string
  b_size :: int
  b_err :: "error option"

definition NewReaderSize :: "io_Reader \<Rightarrow> int \<Rightarrow> Reader" where
  "NewReaderSize r sz = \<lparr>b_rd = r, b_buf = [], b_size = sz, b_err = None\<rparr>"

definition len_buf :: "Reader \<Rightarrow> nat" where
  "len_buf b = (if b_size b < 16 then 16 else nat (b_size b))"

text \<open>
  \<open>fill\<close> reads a new chunk into the free part of the buffer. It tries up to
  \<open>maxConsecutiveEmptyReads = 100\<close> times while \<open>Read\<close> returns no bytes and no error,
  then gives up with \<open>io.ErrNoProgress\<close>.
\<close>

fun fill_loop :: "nat \<Rightarrow> Reader \<Rightarrow> Reader" where
  "fill_loop 0 b = b\<lparr>b_err := Some io_ErrNoProgress\<rparr>"
| "fill_loop (Suc i) b =
     (case io_Read (len_buf b - length (b_buf b)) (b_rd b) of
        ((d, e), r') \<Rightarrow>
          (let b' = b\<lparr>b_buf := b_buf b @ d, b_rd := r'\<rparr>
           in if e \<noteq> None then b'\<lparr>b_err := e\<rparr>
              else if length d > 0 then b'
              else fill_loop i b'))"

definition fill :: "Reader \<Rightarrow> Reader" where
  "fill b = fill_loop 100 b"

text \<open>What a reader still holds: the bytes and responses of the stream, and the bytes of
  the buffer. It bounds the number of reads left.\<close>

fun weight :: "io_Reader \<Rightarrow> nat" where
  "weight [] = 0"
| "weight ((d, e) # rest) = Suc (length d + weight rest)"

definition holds :: "Reader \<Rightarrow> nat" where
  "holds b = weight (b_rd b) + length (b_buf b)"

lemma io_Read_weight:
  "io_Read k r = ((d, e), r') \<Longrightarrow> weight r' + length d \<le> weight r"
  by (cases r) (auto split: if_splits)

lemma len_buf_update [simp]:
  "len_buf (b\<lparr>b_buf := x\<rparr>) = len_buf b"
  "len_buf (b\<lparr>b_rd := r\<rparr>) = len_buf b"
  "len_buf (b\<lparr>b_err := e\<rparr>) = len_buf b"
  by (simp_all add: len_buf_def)

lemma len_buf_pos: "0 < len_buf b"
  by (simp add: len_buf_def)

lemma fill_loop_measure:
  "b_err b = None \<Longrightarrow> length (b_buf b) < len_buf b \<Longrightarrow>
   (b_err (fill_loop n b) \<noteq> None \<or> weight (b_rd (fill_loop n b)) < weight (b_rd b))
   \<and> weight (b_rd (fill_loop n b)) \<le> weight (b_rd b)"
proof (induction n arbitrary: b)
  case 0
  then show ?case by simp
next
  case (Suc i)
  obtain d e r' where rd: "io_Read (len_buf b - length (b_buf b)) (b_rd b) = ((d, e), r')"
    by (metis prod.exhaust)
  have le: "weight r' + length d \<le> weight (b_rd b)" by (rule io_Read_weight[OF rd])
  let ?b' = "b\<lparr>b_buf := b_buf b @ d, b_rd := r'\<rparr>"
  consider (err) "e \<noteq> None" | (data) "e = None" "d \<noteq> []" | (empty) "e = None" "d = []"
    by blast
  then show ?case
  proof cases
    case err
    then show ?thesis using rd le by (auto simp: Let_def)
  next
    case data
    then have "weight r' < weight (b_rd b)" using le by (cases d) auto
    then show ?thesis using rd data by (auto simp: Let_def)
  next
    case empty
    have "b_err ?b' = None" using Suc.prems by simp
    moreover have "length (b_buf ?b') < len_buf ?b'"
      using empty Suc.prems by simp
    ultimately have ih: "(b_err (fill_loop i ?b') \<noteq> None \<or>
        weight (b_rd (fill_loop i ?b')) < weight (b_rd ?b'))
        \<and> weight (b_rd (fill_loop i ?b')) \<le> weight (b_rd ?b')"
      by (rule Suc.IH)
    have eq: "fill_loop (Suc i) b = fill_loop i ?b'" using rd empty by (simp add: Let_def)
    show ?thesis unfolding eq using ih le by auto
  qed
qed

text \<open>
  \<open>ReadSlice\<close>: search the buffer for the delimiter; failing that return a pending error
  with what is buffered, or \<open>ErrBufferFull\<close> with the whole buffer when it is full, or
  fill the buffer and search again. A returned error is cleared (\<open>readErr\<close>).
\<close>

function ReadSlice :: "Reader \<Rightarrow> char \<Rightarrow> string \<times> error option \<times> Reader" where
  "ReadSlice b delim =
     (case IndexByte (b_buf b) delim of
        Some i \<Rightarrow> (take (i + 1) (b_buf b), None, b\<lparr>b_buf := drop (i + 1) (b_buf b)\<rparr>)
      | None \<Rightarrow>
          (case b_err b of
             Some e \<Rightarrow> (b_buf b, Some e, b\<lparr>b_buf := [], b_err := None\<rparr>)
           | None \<Rightarrow>
               if length (b_buf b) \<ge> len_buf b
               then (b_buf b, Some bufio_ErrBufferFull, b\<lparr>b_buf := []\<rparr>)
               else ReadSlice (fill b) delim))"
  by pat_completeness auto
termination
proof (relation "measure (\<lambda>(b, delim). 2 * weight (b_rd b) + (if b_err b = None then 1 else 0))")
  show "wf (measure (\<lambda>(b, delim). 2 * weight (b_rd b) + (if b_err b = None then 1 else 0)))"
    by simp
next
  fix b :: Reader and delim :: char
  assume "IndexByte (b_buf b) delim = None" "b_err b = None" "\<not> len_buf b \<le> length (b_buf b)"
  then show "((fill b, delim), b, delim)
      \<in> measure (\<lambda>(b, delim). 2 * weight (b_rd b) + (if b_err b = None then 1 else 0))"
    using fill_loop_measure[of b 100] by (auto simp: fill_def)
qed

declare ReadSlice.simps [simp del]

lemma fill_loop_holds:
  "holds (fill_loop n b) \<le> holds b"
proof (induction n arbitrary: b)
  case 0
  then show ?case by (simp add: holds_def)
next
  case (Suc i)
  obtain d e r' where rd: "io_Read (len_buf b - length (b_buf b)) (b_rd b) = ((d, e), r')"
    by (metis prod.exhaust)
  have le: "weight r' + length d \<le> weight (b_rd b)" by (rule io_Read_weight[OF rd])
  let ?b' = "b\<lparr>b_buf := b_buf b @ d, b_rd := r'\<rparr>"
  have h: "holds ?b' \<le> holds b" using le by (simp add: holds_def)
  have "holds (fill_loop i ?b') \<le> holds ?b'" by (rule Suc.IH)
  then show ?case using rd h by (auto simp: Let_def holds_def)
qed

lemma fill_loop_err:
  "b_err b = None \<Longrightarrow> length (b_buf b) < len_buf b \<Longrightarrow> b_err (fill_loop n b) = Some x \<Longrightarrow>
     holds (fill_loop n b) < holds b \<or> x = io_EOF \<or> n = 0"
proof (induction n arbitrary: b)
  case 0
  then show ?case by simp
next
  case (Suc i)
  obtain d e r' where rd: "io_Read (len_buf b - length (b_buf b)) (b_rd b) = ((d, e), r')"
    by (metis prod.exhaust)
  let ?b' = "b\<lparr>b_buf := b_buf b @ d, b_rd := r'\<rparr>"
  show ?case
  proof (cases "b_rd b")
    case Nil
    then show ?thesis using rd Suc.prems by (auto simp: Let_def)
  next
    case (Cons a rest)
    obtain d0 e0 where a: "a = (d0, e0)" by (cases a)
    have lt: "holds ?b' < holds b \<or> (d \<noteq> [] \<and> e = None)"
      using rd Cons a Suc.prems(2) by (auto simp: holds_def split: if_splits)
    consider (err) "e \<noteq> None" | (data) "e = None" "d \<noteq> []" | (empty) "e = None" "d = []"
      by blast
    then show ?thesis
    proof cases
      case err
      then show ?thesis using rd lt by (auto simp: Let_def holds_def)
    next
      case data
      then show ?thesis using rd Suc.prems by (auto simp: Let_def)
    next
      case empty
      have eq: "fill_loop (Suc i) b = fill_loop i ?b'" using rd empty by (simp add: Let_def)
      have "b_err ?b' = None" using Suc.prems by simp
      moreover have "length (b_buf ?b') < len_buf ?b'" using Suc.prems empty by simp
      moreover have "b_err (fill_loop i ?b') = Some x" using Suc.prems eq by simp
      ultimately have "holds (fill_loop i ?b') < holds ?b' \<or> x = io_EOF \<or> i = 0"
        by (rule Suc.IH)
      moreover have "holds (fill_loop i ?b') \<le> holds ?b'" by (rule fill_loop_holds)
      ultimately show ?thesis unfolding eq using lt empty by auto
    qed
  qed
qed

lemma fill_holds: "holds (fill b) \<le> holds b"
  by (simp add: fill_def fill_loop_holds)

lemma fill_err:
  "b_err b = None \<Longrightarrow> length (b_buf b) < len_buf b \<Longrightarrow> b_err (fill b) = Some x \<Longrightarrow>
     holds (fill b) < holds b \<or> x = io_EOF"
  using fill_loop_err[of b 100 x] by (simp add: fill_def)

lemma ReadSlice_holds:
  "ReadSlice b delim = (line, e, b') \<Longrightarrow>
     holds b' + length line \<le> holds b
     \<and> (e = None \<longrightarrow> line \<noteq> [])
     \<and> (\<forall>x. e = Some x \<longrightarrow> b_err b' = None \<and> (b_err b \<noteq> None \<or> holds b' < holds b \<or> x = io_EOF))
     \<and> (\<forall>y. b_err b = Some y \<longrightarrow> e = None \<or> e = Some y)"
proof (induction b delim arbitrary: line e b' rule: ReadSlice.induct)
  case (1 b delim)
  show ?case
  proof (cases "IndexByte (b_buf b) delim")
    case (Some i)
    then show ?thesis using "1.prems" 
      by (auto simp: ReadSlice.simps[of b] holds_def)
  next
    case None
    note nf = this
    show ?thesis
    proof (cases "b_err b")
      case (Some y)
      then show ?thesis using "1.prems" nf 
        by (auto simp: ReadSlice.simps[of b] holds_def)
    next
      case None
      note ne = this
      show ?thesis
      proof (cases "length (b_buf b) \<ge> len_buf b")
        case True
        then have "b_buf b \<noteq> []" using len_buf_pos[of b] by auto
        then show ?thesis using "1.prems" nf ne True
          by (auto simp: ReadSlice.simps[of b] holds_def)
      next
        case False
        have eq: "ReadSlice (fill b) delim = (line, e, b')"
          using "1.prems" nf ne False by (simp add: ReadSlice.simps[of b])
        have ih: "holds b' + length line \<le> holds (fill b)
     \<and> (e = None \<longrightarrow> line \<noteq> [])
     \<and> (\<forall>x. e = Some x \<longrightarrow> b_err b' = None \<and> (b_err (fill b) \<noteq> None \<or> holds b' < holds (fill b) \<or> x = io_EOF))
     \<and> (\<forall>y. b_err (fill b) = Some y \<longrightarrow> e = None \<or> e = Some y)"
          using "1.IH"[OF nf ne _ eq] False by simp
        have room: "length (b_buf b) < len_buf b" using False by simp
        have c1: "holds b' + length line \<le> holds b" using ih fill_holds[of b] by linarith
        have c3: "b_err b' = None \<and> (b_err b \<noteq> None \<or> holds b' < holds b \<or> x = io_EOF)"
          if ex: "e = Some x" for x
        proof (cases "b_err (fill b)")
          case None
          then show ?thesis using ih ex fill_holds[of b] by auto
        next
          case (Some y)
          then have "x = y" using ih ex by auto
          then show ?thesis using ih ex Some fill_err[OF ne room Some] c1 by auto
        qed
        show ?thesis using c1 c3 ih ne by auto
      qed
    qed
  qed
qed

text \<open>
  \<open>collectFragments\<close> calls \<open>ReadSlice\<close> until it returns the delimiter or an error other
  than \<open>ErrBufferFull\<close>, keeping a copy of every full buffer. The comparison with
  \<open>ErrBufferFull\<close> is by identity.
\<close>

function collectFragments :: "Reader \<Rightarrow> char \<Rightarrow> string list \<times> string \<times> error option \<times> Reader" where
  "collectFragments b delim =
     (case ReadSlice b delim of
        (frag, e, b') \<Rightarrow>
          if e = None then ([], frag, None, b')
          else if e \<noteq> Some bufio_ErrBufferFull then ([], frag, e, b')
          else (case collectFragments b' delim of
                  (fullBuffers, finalFragment, err, b'') \<Rightarrow>
                    (frag # fullBuffers, finalFragment, err, b'')))"
  by pat_completeness auto
termination
proof (relation "measure (\<lambda>(b, delim). 2 * holds b + (if b_err b = None then 0 else 1))")
  show "wf (measure (\<lambda>(b, delim). 2 * holds b + (if b_err b = None then 0 else 1)))"
    by simp
next
  fix b :: Reader and delim :: char and frag :: string and y :: "error option \<times> Reader"
    and e :: "error option" and b' :: Reader
  assume "(frag, y) = ReadSlice b delim" "(e, b') = y" "e \<noteq> None"
    "\<not> e \<noteq> Some bufio_ErrBufferFull"
  then have rs: "ReadSlice b delim = (frag, Some bufio_ErrBufferFull, b')" by simp
  show "((b', delim), b, delim)
      \<in> measure (\<lambda>(b, delim). 2 * holds b + (if b_err b = None then 0 else 1))"
    using ReadSlice_holds[OF rs] by auto
qed

declare collectFragments.simps [simp del]

text \<open>\<open>ReadBytes\<close>: the full buffers and the final fragment, copied into one slice, with
  the error \<open>collectFragments\<close> ended on.\<close>

definition ReadBytes :: "Reader \<Rightarrow> char \<Rightarrow> string \<times> error option \<times> Reader" where
  "ReadBytes b delim =
     (case collectFragments b delim of
        (full, frag, err, b') \<Rightarrow> (concat full @ frag, err, b'))"

lemma collectFragments_holds:
  "collectFragments b delim = (full, frag, e, b') \<Longrightarrow>
     holds b' + length (concat full @ frag) \<le> holds b
     \<and> (e = None \<longrightarrow> frag \<noteq> [])
     \<and> (\<forall>x. e = Some x \<longrightarrow>
           b_err b' = None \<and> (b_err b \<noteq> None \<or> holds b' < holds b \<or> x = io_EOF))"
proof (induction b delim arbitrary: full frag e b' rule: collectFragments.induct)
  case (1 b delim)
  obtain frag0 e0 b0 where rs: "ReadSlice b delim = (frag0, e0, b0)"
    by (metis prod.exhaust)
  note h = ReadSlice_holds[OF rs]
  show ?case
  proof (cases "e0 = Some bufio_ErrBufferFull")
    case False
    then have "full = [] \<and> frag = frag0 \<and> e = e0 \<and> b' = b0"
      using "1.prems" rs by (auto simp: collectFragments.simps[of b] split: if_splits)
    then show ?thesis using h by auto
  next
    case True
    obtain full1 where cf: "collectFragments b0 delim = (full1, frag, e, b')"
      and full: "full = frag0 # full1"
      using "1.prems" rs True
      by (auto simp: collectFragments.simps[of b] split: prod.splits)
    have e0: "e0 \<noteq> None" "\<not> e0 \<noteq> Some bufio_ErrBufferFull" using True by auto
    note ih = "1.IH"[OF rs[symmetric] refl e0 cf]
    have b0: "b_err b0 = None" using h True by auto
    have lt: "b_err b \<noteq> None \<or> holds b0 < holds b" using h True by auto
    have le: "holds b0 + length frag0 \<le> holds b" using h by auto
    show ?thesis using ih b0 lt le full by auto
  qed
qed

lemma ReadBytes_holds:
  "ReadBytes b delim = (data, e, b') \<Longrightarrow>
     holds b' + length data \<le> holds b
     \<and> (e = None \<longrightarrow> data \<noteq> [])
     \<and> (\<forall>x. e = Some x \<longrightarrow>
           b_err b' = None \<and> (b_err b \<noteq> None \<or> holds b' < holds b \<or> x = io_EOF))"
proof -
  assume rb: "ReadBytes b delim = (data, e, b')"
  obtain full frag where cf: "collectFragments b delim = (full, frag, e, b')"
    and data: "data = concat full @ frag"
    using rb by (auto simp: ReadBytes_def split: prod.splits)
  show ?thesis using collectFragments_holds[OF cf] data by auto
qed

subsection \<open>The batch reader of standard output: cmdReadOut\<close>

text \<open>
  A parser is a function of its own state and the bytes it is given; it returns the
  metrics, the error (\<open>None\<close> for nil) and its new state. It belongs to one instance.
\<close>

type_synonym ('p, 'm) parser_fn = "'p \<Rightarrow> string \<Rightarrow> ('m list \<times> error option) \<times> 'p"

text \<open>What the loop does with the result of \<open>Parse\<close> (lines 112 to 124): report the
  error, note once that no metric was created, add every metric.\<close>

definition forward_result :: "'m list \<times> error option \<Rightarrow> 'm world \<Rightarrow> 'm world" where
  "forward_result r w =
     (case r of
        (metrics, err) \<Rightarrow>
          (let w1 = (case err of
                       Some e \<Rightarrow> emit (AddError (Errorf ''parse error: '' e)) w
                     | None \<Rightarrow> w);
               w2 = (if length metrics = 0
                     then once_Do (emit (Log_Debug NoMetricsCreatedMsg)) w1
                     else w1)
           in foldl (\<lambda>w metric. emit (AddMetric metric) w) w2 metrics))"

text \<open>The call of the parser on one record, and what follows it.\<close>

definition parse_record :: "('p, 'm) parser_fn \<Rightarrow> string \<Rightarrow> 'p \<times> 'm world \<Rightarrow> 'p \<times> 'm world" where
  "parse_record P data s =
     (case s of
        (p, w) \<Rightarrow>
          (case P p data of
             (r, p') \<Rightarrow> (p', forward_result r (emit (Parser_Parse data) w))))"

text \<open>
  One iteration of the loop of \<open>cmdReadOut\<close>, on the reader and the parser state of the
  instance: \<open>None\<close> when the loop is left (\<open>break\<close>), the next state otherwise.
\<close>

definition cmdReadOut_iter :: "('p, 'm) parser_fn \<Rightarrow> Reader \<times> 'p \<Rightarrow> 'm world
    \<Rightarrow> (Reader \<times> 'p) option \<times> 'm world" where
  "cmdReadOut_iter P s w =
     (case s of
        (rdr, p) \<Rightarrow>
          (case ReadBytes rdr newline of
             (data, Some err, rdr') \<Rightarrow>
               if errors_Is err io_EOF \<or> errors_Is err os_ErrClosed then (None, w)
               else (Some (rdr', p), emit (AddError (Errorf ''error reading stdout: '' err)) w)
           | (data, None, rdr') \<Rightarrow>
               (case parse_record P data (p, w) of
                  (p', w') \<Rightarrow> (Some (rdr', p'), w'))))"

lemma errors_Is_EOF [simp]: "errors_Is io_EOF io_EOF"
  by simp

function cmdReadOut_loop :: "('p, 'm) parser_fn \<Rightarrow> Reader \<times> 'p \<Rightarrow> 'm world \<Rightarrow> 'p \<times> 'm world" where
  "cmdReadOut_loop P s w =
     (case cmdReadOut_iter P s w of
        (None, w') \<Rightarrow> (snd s, w')
      | (Some s', w') \<Rightarrow> cmdReadOut_loop P s' w')"
  by pat_completeness auto
termination
proof (relation "measure (\<lambda>(P, s, w). 2 * holds (fst s) + (if b_err (fst s) = None then 0 else 1))")
  show "wf (measure (\<lambda>(P, s, w). 2 * holds (fst s) + (if b_err (fst s) = None then 0 else 1)))"
    by simp
next
  fix P :: "('p, 'm) parser_fn" and s :: "Reader \<times> 'p" and w :: "'m world"
    and x1 :: "(Reader \<times> 'p) option" and w' :: "'m world" and s' :: "Reader \<times> 'p"
  assume "(x1, w') = cmdReadOut_iter P s w" "x1 = Some s'"
  then have it: "cmdReadOut_iter P s w = (Some s', w')" by simp
  obtain rdr p where s: "s = (rdr, p)" by (cases s)
  obtain data e rdr' where rb: "ReadBytes rdr newline = (data, e, rdr')"
    by (metis prod.exhaust)
  note h = ReadBytes_holds[OF rb]
  have "2 * holds (fst s') + (if b_err (fst s') = None then 0 else 1)
      < 2 * holds rdr + (if b_err rdr = None then 0 else 1)"
  proof (cases e)
    case None
    then have "fst s' = rdr'" using it s rb
      by (auto simp: cmdReadOut_iter_def split: prod.splits)
    moreover have "holds rdr' < holds rdr" using h None by (cases data) auto
    ultimately show ?thesis by auto
  next
    case (Some err)
    then have "fst s' = rdr'" and "\<not> errors_Is err io_EOF" using it s rb
      by (auto simp: cmdReadOut_iter_def split: if_splits)
    moreover have "err \<noteq> io_EOF" using \<open>\<not> errors_Is err io_EOF\<close> by auto
    ultimately show ?thesis using h Some by auto
  qed
  then show "((P, s', w'), P, s, w)
      \<in> measure (\<lambda>(P, s, w). 2 * holds (fst s) + (if b_err (fst s) = None then 0 else 1))"
    using s by simp
qed

declare cmdReadOut_loop.simps [simp del]

text \<open>\<open>cmdReadOut\<close>: a reader of \<open>int(e.BufferSize)\<close> bytes over the stream, then the loop.
  \<open>P\<close> and \<open>p\<close> are the behaviour and the state of \<open>e.parser\<close>.\<close>

definition cmdReadOut :: "Execd \<Rightarrow> ('p, 'm) parser_fn \<Rightarrow> 'p \<Rightarrow> io_Reader \<Rightarrow> 'm world
    \<Rightarrow> 'p \<times> 'm world" where
  "cmdReadOut e P p out w = cmdReadOut_loop P (NewReaderSize out (BufferSize e), p) w"

subsection \<open>Streams of complete records\<close>

text \<open>A stream that delivers bytes only: every response has at least one byte and no
  error. The end of the stream is the end of the list.\<close>

definition chunks_only :: "io_Reader \<Rightarrow> bool" where
  "chunks_only r = list_all (\<lambda>x. fst x \<noteq> [] \<and> snd x = None) r"

text \<open>The stream that delivers the given chunks, one per \<open>Read\<close> at most.\<close>

definition chunked :: "string list \<Rightarrow> io_Reader" where
  "chunked chunks = map (\<lambda>d. (d, None)) chunks"

text \<open>A reader over such a stream, with no error pending but the end of the stream.\<close>

definition clean :: "Reader \<Rightarrow> bool" where
  "clean b = (chunks_only (b_rd b) \<and>
     (b_err b = None \<or> (b_err b = Some io_EOF \<and> b_rd b = [])))"

text \<open>The bytes a reader has not handed out: its buffer, then the stream.\<close>

definition rest_of :: "Reader \<Rightarrow> string" where
  "rest_of b = b_buf b @ concat (map fst (b_rd b))"

text \<open>A complete record: bytes without the delimiter, then the delimiter.\<close>

definition is_record :: "char \<Rightarrow> string \<Rightarrow> bool" where
  "is_record d r = (r \<noteq> [] \<and> last r = d \<and> d \<notin> set (butlast r))"

text \<open>
  The records of an input, as the specification reads them: the input cut after every
  delimiter. Bytes after the last delimiter form a last, incomplete piece.
\<close>

fun split_after :: "char \<Rightarrow> string \<Rightarrow> string list" where
  "split_after d [] = []"
| "split_after d (x # xs) =
     (if x = d then [x] # split_after d xs
      else (case split_after d xs of
              [] \<Rightarrow> [[x]]
            | r # rs \<Rightarrow> (x # r) # rs))"

text \<open>An input of complete records: empty, or ending with the delimiter.\<close>

definition complete :: "char \<Rightarrow> string \<Rightarrow> bool" where
  "complete d input = (input = [] \<or> last input = d)"

text \<open>
  The metrics the parser produces from the records of the unsplit input: it is called on
  each record in turn, and its metrics are put in a row.
\<close>

fun parser_metrics :: "('p, 'm) parser_fn \<Rightarrow> 'p \<Rightarrow> string list \<Rightarrow> 'm list" where
  "parser_metrics P p [] = []"
| "parser_metrics P p (r # rs) =
     (case P p r of ((metrics, err), p') \<Rightarrow> metrics @ parser_metrics P p' rs)"

text \<open>The metrics added to the accumulator and the arguments of the calls of \<open>Parse\<close>, in
  the order of the calls.\<close>

fun forwarded :: "'m event list \<Rightarrow> 'm list" where
  "forwarded [] = []"
| "forwarded (AddMetric m # evs) = m # forwarded evs"
| "forwarded (ev # evs) = forwarded evs"

fun parsed :: "'m event list \<Rightarrow> string list" where
  "parsed [] = []"
| "parsed (Parser_Parse data # evs) = data # parsed evs"
| "parsed (ev # evs) = parsed evs"

lemma IndexByte_None: "IndexByte xs c = None \<longleftrightarrow> c \<notin> set xs"
  by (induction xs) auto

lemma IndexByte_Some:
  "IndexByte xs c = Some i \<Longrightarrow>
     take (Suc i) xs = take i xs @ [c] \<and> c \<notin> set (take i xs) \<and> i < length xs"
proof (induction xs arbitrary: i)
  case Nil
  then show ?case by simp
next
  case (Cons x xs)
  show ?case
  proof (cases "x = c")
    case True
    then show ?thesis using Cons.prems by simp
  next
    case False
    then obtain j where j: "IndexByte xs c = Some j" "i = Suc j"
      using Cons.prems by (cases "IndexByte xs c") auto
    show ?thesis using Cons.IH[OF j(1)] j(2) False by simp
  qed
qed

lemma is_record_iff: "is_record d r \<longleftrightarrow> (\<exists>pre. r = pre @ [d] \<and> d \<notin> set pre)"
proof
  assume a: "is_record d r"
  then have "r \<noteq> []" "last r = d" by (simp_all add: is_record_def)
  then have "r = butlast r @ [d]" using append_butlast_last_id[of r] by simp
  moreover have "d \<notin> set (butlast r)" using a by (simp add: is_record_def)
  ultimately show "\<exists>pre. r = pre @ [d] \<and> d \<notin> set pre" by blast
next
  assume "\<exists>pre. r = pre @ [d] \<and> d \<notin> set pre"
  then obtain pre where "r = pre @ [d]" "d \<notin> set pre" by blast
  then show "is_record d r" by (simp add: is_record_def)
qed

lemma first_delim_unique:
  "d \<notin> set pre \<Longrightarrow> d \<notin> set pre' \<Longrightarrow> pre @ d # x = pre' @ d # y \<Longrightarrow> pre = pre' \<and> x = y"
proof (induction pre arbitrary: pre')
  case Nil
  then show ?case by (cases pre') auto
next
  case (Cons a pre)
  then show ?case by (cases pre') auto
qed

lemma is_record_unique:
  assumes "is_record d r" "is_record d r'" "r @ x = r' @ y"
  shows "r = r' \<and> x = y"
proof -
  obtain pre where r: "r = pre @ [d]" "d \<notin> set pre"
    using assms(1) unfolding is_record_iff by blast
  obtain pre' where r': "r' = pre' @ [d]" "d \<notin> set pre'"
    using assms(2) unfolding is_record_iff by blast
  have "pre @ d # x = pre' @ d # y" using assms(3) unfolding r(1) r'(1) by simp
  then have "pre = pre' \<and> x = y" by (rule first_delim_unique[OF r(2) r'(2)])
  then show ?thesis unfolding r(1) r'(1) by simp
qed

lemma rest_of_update [simp]:
  "rest_of (b\<lparr>b_err := e\<rparr>) = rest_of b"
  by (simp add: rest_of_def)



lemma fill_loop_clean:
  assumes "clean b" "b_err b = None" "length (b_buf b) < len_buf b"
  shows "clean (fill_loop (Suc n) b) \<and> rest_of (fill_loop (Suc n) b) = rest_of b"
proof (cases "b_rd b")
  case Nil
  then have "fill_loop (Suc n) b = b\<lparr>b_buf := b_buf b, b_rd := [], b_err := Some io_EOF\<rparr>"
    by (simp add: Let_def)
  then show ?thesis using assms Nil by (simp add: clean_def rest_of_def chunks_only_def)
next
  case (Cons a rest)
  obtain d e where a: "a = (d, e)" by (cases a)
  have d: "d \<noteq> []" "e = None" and rest: "chunks_only rest"
    using assms(1) Cons a by (auto simp: clean_def chunks_only_def)
  define k where "k = len_buf b - length (b_buf b)"
  have k: "0 < k" using assms(3) by (simp add: k_def)
  show ?thesis
  proof (cases "length d \<le> k")
    case True
    then have "io_Read k (b_rd b) = ((d, None), rest)" using Cons a d by simp
    then have "fill_loop (Suc n) b = b\<lparr>b_buf := b_buf b @ d, b_rd := rest\<rparr>"
      using d by (simp add: Let_def k_def)
    then show ?thesis using Cons a d rest assms(2)
      by (simp add: clean_def rest_of_def)
  next
    case False
    then have ne: "take k d \<noteq> []" "drop k d \<noteq> []" using k d by auto
    have "io_Read k (b_rd b) = ((take k d, None), (drop k d, None) # rest)"
      using Cons a d False by simp
    then have "fill_loop (Suc n) b = b\<lparr>b_buf := b_buf b @ take k d, b_rd := (drop k d, None) # rest\<rparr>"
      using ne by (simp add: Let_def k_def)
    then show ?thesis using Cons a rest assms(2) ne(2)
      by (simp add: clean_def rest_of_def chunks_only_def)
  qed
qed


lemma fill_clean:
  "clean b \<Longrightarrow> b_err b = None \<Longrightarrow> length (b_buf b) < len_buf b \<Longrightarrow>
     clean (fill b) \<and> rest_of (fill b) = rest_of b"
proof -
  have "fill b = fill_loop (Suc 99) b" by (simp add: fill_def del: fill_loop.simps)
  then show "clean b \<Longrightarrow> b_err b = None \<Longrightarrow> length (b_buf b) < len_buf b \<Longrightarrow>
     clean (fill b) \<and> rest_of (fill b) = rest_of b"
    using fill_loop_clean[of b 99] by (simp del: fill_loop.simps)
qed

lemma ReadSlice_clean:
  "clean b \<Longrightarrow> ReadSlice b delim = (line, e, b') \<Longrightarrow>
     clean b' \<and> line @ rest_of b' = rest_of b
     \<and> (e = None \<longrightarrow> is_record delim line)
     \<and> (\<forall>x. e = Some x \<longrightarrow> delim \<notin> set line \<and> b_err b' = None \<and>
            (x = bufio_ErrBufferFull \<or> x = io_EOF \<and> rest_of b' = []))"
proof (induction b delim arbitrary: line e b' rule: ReadSlice.induct)
  case (1 b delim)
  show ?case
  proof (cases "IndexByte (b_buf b) delim")
    case (Some i)
    then have res: "line = take (i + 1) (b_buf b)" "e = None" "b' = b\<lparr>b_buf := drop (i + 1) (b_buf b)\<rparr>"
      using "1.prems" by (auto simp: ReadSlice.simps[of b])
    have "is_record delim line" using IndexByte_Some[OF Some] res(1) by (auto simp: is_record_iff)
    moreover have "clean b'" using "1.prems"(1) res(3) by (simp add: clean_def)
    moreover have "line @ rest_of b' = rest_of b"
    proof -
      have "(take (i + 1) (b_buf b) @ drop (i + 1) (b_buf b)) @ concat (map fst (b_rd b))
          = b_buf b @ concat (map fst (b_rd b))"
        by (simp only: append_take_drop_id)
      then show ?thesis unfolding res rest_of_def by simp
    qed
    ultimately show ?thesis using res by simp
  next
    case None
    note nf = this
    then have notin: "delim \<notin> set (b_buf b)" by (simp add: IndexByte_None)
    show ?thesis
    proof (cases "b_err b")
      case (Some y)
      then have res: "line = b_buf b" "e = Some y" "b' = b\<lparr>b_buf := [], b_err := None\<rparr>"
        using "1.prems" nf by (auto simp: ReadSlice.simps[of b])
      have y: "y = io_EOF" "b_rd b = []" using "1.prems"(1) Some by (auto simp: clean_def)
      show ?thesis using res y notin "1.prems"(1) by (simp add: clean_def rest_of_def)
    next
      case None
      note ne = this
      show ?thesis
      proof (cases "length (b_buf b) \<ge> len_buf b")
        case True
        then have res: "line = b_buf b" "e = Some bufio_ErrBufferFull" "b' = b\<lparr>b_buf := []\<rparr>"
          using "1.prems" nf ne by (auto simp: ReadSlice.simps[of b])
        show ?thesis using res notin "1.prems"(1) ne by (simp add: clean_def rest_of_def)
      next
        case False
        have eq: "ReadSlice (fill b) delim = (line, e, b')"
          using "1.prems" nf ne False by (simp add: ReadSlice.simps[of b])
        have room: "length (b_buf b) < len_buf b" using False by simp
        note fc = fill_clean[OF "1.prems"(1) ne room]
        have ih: "clean b' \<and> line @ rest_of b' = rest_of (fill b)
     \<and> (e = None \<longrightarrow> is_record delim line)
     \<and> (\<forall>x. e = Some x \<longrightarrow> delim \<notin> set line \<and> b_err b' = None \<and>
            (x = bufio_ErrBufferFull \<or> x = io_EOF \<and> rest_of b' = []))"
          using "1.IH"[OF nf ne _ _ eq] False fc by simp
        then show ?thesis using fc by simp
      qed
    qed
  qed
qed

lemma collectFragments_clean:
  "clean b \<Longrightarrow> collectFragments b delim = (full, frag, e, b') \<Longrightarrow>
     clean b' \<and> (concat full @ frag) @ rest_of b' = rest_of b
     \<and> (e = None \<longrightarrow> is_record delim (concat full @ frag))
     \<and> (\<forall>x. e = Some x \<longrightarrow> delim \<notin> set (concat full @ frag) \<and> x = io_EOF \<and> rest_of b' = [])"
proof (induction b delim arbitrary: full frag e b' rule: collectFragments.induct)
  case (1 b delim)
  obtain frag0 e0 b0 where rs: "ReadSlice b delim = (frag0, e0, b0)"
    by (metis prod.exhaust)
  note h = ReadSlice_clean[OF "1.prems"(1) rs]
  show ?case
  proof (cases "e0 = Some bufio_ErrBufferFull")
    case False
    then have "full = [] \<and> frag = frag0 \<and> e = e0 \<and> b' = b0"
      using "1.prems" rs by (auto simp: collectFragments.simps[of b] split: if_splits)
    then show ?thesis using h False by auto
  next
    case True
    obtain full1 where cf: "collectFragments b0 delim = (full1, frag, e, b')"
      and full: "full = frag0 # full1"
      using "1.prems" rs True
      by (auto simp: collectFragments.simps[of b] split: prod.splits)
    have e0: "e0 \<noteq> None" "\<not> e0 \<noteq> Some bufio_ErrBufferFull" using True by auto
    have cb0: "clean b0" using h by simp
    note ih = "1.IH"[OF rs[symmetric] refl e0 cb0 cf]
    have n0: "delim \<notin> set frag0" using h True by simp
    have r0: "frag0 @ rest_of b0 = rest_of b" using h by simp
    have rec: "is_record delim (concat full @ frag)" if "e = None"
    proof -
      have "is_record delim (concat full1 @ frag)" using ih that by blast
      then obtain pre where "concat full1 @ frag = pre @ [delim]" "delim \<notin> set pre"
        unfolding is_record_iff by blast
      then have "concat full @ frag = (frag0 @ pre) @ [delim] \<and> delim \<notin> set (frag0 @ pre)"
        using full n0 by simp
      then show ?thesis unfolding is_record_iff by blast
    qed
    have "(concat full @ frag) @ rest_of b' = rest_of b" using ih r0 full by (metis append.assoc concat.simps(2))
    then show ?thesis using ih rec n0 full by auto
  qed
qed

lemma ReadBytes_clean:
  assumes "clean b" "ReadBytes b delim = (data, e, b')"
  shows "clean b' \<and> data @ rest_of b' = rest_of b
     \<and> (e = None \<longrightarrow> is_record delim data)
     \<and> (\<forall>x. e = Some x \<longrightarrow> delim \<notin> set data \<and> x = io_EOF \<and> rest_of b' = [])"
proof -
  obtain full frag where cf: "collectFragments b delim = (full, frag, e, b')"
    and data: "data = concat full @ frag"
    using assms(2) by (auto simp: ReadBytes_def split: prod.splits)
  show ?thesis using collectFragments_clean[OF assms(1) cf] data by simp
qed

lemma loop_records:
  "clean b \<Longrightarrow> rest_of b = concat recs \<Longrightarrow> list_all (is_record newline) recs \<Longrightarrow>
     cmdReadOut_loop P (b, p) w = foldl (\<lambda>s r. parse_record P r s) (p, w) recs"
proof (induction recs arbitrary: b p w)
  case Nil
  obtain data e b' where rb: "ReadBytes b newline = (data, e, b')" by (metis prod.exhaust)
  note h = ReadBytes_clean[OF Nil(1) rb]
  have "e = Some io_EOF"
  proof (cases e)
    case None
    then have "data \<noteq> []" using h by (auto simp: is_record_def)
    then show ?thesis using h Nil(2) by auto
  next
    case (Some x)
    then show ?thesis using h by simp
  qed
  then have "cmdReadOut_iter P (b, p) w = (None, w)" using rb by (simp add: cmdReadOut_iter_def)
  then show ?case by (simp add: cmdReadOut_loop.simps[of P "(b, p)"])
next
  case (Cons r rs)
  obtain data e b' where rb: "ReadBytes b newline = (data, e, b')" by (metis prod.exhaust)
  note h = ReadBytes_clean[OF Cons.prems(1) rb]
  have r: "is_record newline r" and rs: "list_all (is_record newline) rs" using Cons.prems(3) by auto
  have all: "data @ rest_of b' = r @ concat rs" using h Cons.prems(2) by simp
  have e: "e = None"
  proof (cases e)
    case (Some x)
    then have "newline \<notin> set data" "rest_of b' = []" using h by auto
    then have "newline \<notin> set (r @ concat rs)" using all by (metis append_Nil2)
    moreover have "newline \<in> set r" using r by (auto simp: is_record_iff)
    ultimately show ?thesis by simp
  qed simp
  then have "is_record newline data" using h by simp
  then have eq: "data = r" "rest_of b' = concat rs" using is_record_unique[OF _ r all] by auto
  obtain p' w' where pr: "parse_record P r (p, w) = (p', w')" by (metis prod.exhaust)
  have "cmdReadOut_iter P (b, p) w = (Some (b', p'), w')"
    using rb e eq pr by (simp add: cmdReadOut_iter_def)
  then have "cmdReadOut_loop P (b, p) w = cmdReadOut_loop P (b', p') w'"
    by (simp add: cmdReadOut_loop.simps[of P "(b, p)"])
  also have "\<dots> = foldl (\<lambda>s r. parse_record P r s) (p', w') rs"
    using Cons.IH[OF _ eq(2) rs] h by simp
  finally show ?case using pr by simp
qed

lemma split_after_concat: "concat (split_after d xs) = xs"
  by (induction xs) (auto split: list.splits)

lemma split_after_records:
  "complete d xs \<Longrightarrow> list_all (is_record d) (split_after d xs)"
proof (induction xs)
  case Nil
  then show ?case by simp
next
  case (Cons x xs)
  show ?case
  proof (cases "xs = []")
    case True
    then show ?thesis using Cons.prems by (auto simp: complete_def is_record_def)
  next
    case False
    then have c: "complete d xs" using Cons.prems by (simp add: complete_def)
    note ih = Cons.IH[OF c]
    have ne: "split_after d xs \<noteq> []" using False split_after_concat[of d xs] by auto
    show ?thesis
    proof (cases "x = d")
      case True
      then show ?thesis using ih by (simp add: is_record_def)
    next
      case False
      obtain r rs where s: "split_after d xs = r # rs" using ne by (cases "split_after d xs") auto
      then have "is_record d r" using ih by simp
      then have "is_record d (x # r)" using False by (auto simp: is_record_def)
      then show ?thesis using s ih False by simp
    qed
  qed
qed

subsection \<open>Several instances in one process\<close>

text \<open>
  An instance reading its standard output: the behaviour of its parser, and its reader
  and parser state while the loop of \<open>cmdReadOut\<close> runs (\<open>None\<close> after the loop has
  returned). The instances of a process share the world; a schedule names, step by step,
  the instance whose loop runs its next iteration.
\<close>

type_synonym ('p, 'm) reader_inst = "('p, 'm) parser_fn \<times> (Reader \<times> 'p) option"

fun step_instance :: "('p, 'm) reader_inst \<Rightarrow> 'm world \<Rightarrow> ('p, 'm) reader_inst \<times> 'm world" where
  "step_instance (P, None) w = ((P, None), w)"
| "step_instance (P, Some s) w =
     (case cmdReadOut_iter P s w of (s', w') \<Rightarrow> ((P, s'), w'))"

fun run_schedule :: "nat list \<Rightarrow> ('p, 'm) reader_inst list \<Rightarrow> 'm world
    \<Rightarrow> ('p, 'm) reader_inst list \<times> 'm world" where
  "run_schedule [] insts w = (insts, w)"
| "run_schedule (i # sched) insts w =
     (if i < length insts
      then (case step_instance (insts ! i) w of
              (inst', w') \<Rightarrow> run_schedule sched (insts[i := inst']) w')
      else run_schedule sched insts w)"

text \<open>The number of times the notice of no metrics went to the log.\<close>

definition notices :: "'m world \<Rightarrow> nat" where
  "notices w = length (filter (\<lambda>ev. ev = Log_Debug NoMetricsCreatedMsg) (events w))"

subsection \<open>The streaming reader of standard output: cmdReadOutStream\<close>

text \<open>
  The decoder \<open>influx.NewStreamParser(out)\<close> is outside this file. It is modelled by what
  its successive calls of \<open>Next\<close> return: a metric, or an error.
\<close>

datatype 'm next_result = Next_Metric 'm | Next_Err error

text \<open>How a run over a finite list of results of \<open>Next\<close> ends: the loop has returned, or
  it has used every result and is inside the next call of \<open>Next\<close>.\<close>

datatype loop_end = Returned | In_Next

text \<open>\<open>cmdReadOutStream\<close>: the end of the run, the results of \<open>Next\<close> not asked for, and
  the world.\<close>

fun cmdReadOutStream :: "'m next_result list \<Rightarrow> 'm world
    \<Rightarrow> loop_end \<times> 'm next_result list \<times> 'm world" where
  "cmdReadOutStream [] w = (In_Next, [], w)"
| "cmdReadOutStream (Next_Err err # rest) w =
     (if errors_Is err influx_EOF then (Returned, rest, w)
      else (case errors_As_ParseError err of
              Some parseErr \<Rightarrow> cmdReadOutStream rest (emit (AddError parseErr) w)
            | None \<Rightarrow> (Returned, rest, emit (AddError err) w)))"
| "cmdReadOutStream (Next_Metric metric # rest) w =
     cmdReadOutStream rest (emit (AddMetric metric) w)"

text \<open>The results of \<open>Next\<close> after which the loop goes on: a metric, or an error that is
  not the end of the stream and is, or wraps, a \<open>*influx.ParseError\<close>.\<close>

fun goes_on :: "'m next_result \<Rightarrow> bool" where
  "goes_on (Next_Metric m) = True"
| "goes_on (Next_Err err) = (\<not> errors_Is err influx_EOF \<and> errors_As_ParseError err \<noteq> None)"

text \<open>The call the loop makes on the accumulator for such a result.\<close>

fun stream_event :: "'m next_result \<Rightarrow> 'm event" where
  "stream_event (Next_Metric m) = AddMetric m"
| "stream_event (Next_Err err) =
     (case errors_As_ParseError err of
        Some parseErr \<Rightarrow> AddError parseErr
      | None \<Rightarrow> AddError err)"

subsection \<open>bufio.Scanner\<close>

text \<open>
  The state of a \<open>bufio.Scanner\<close> with the split function \<open>ScanLines\<close>, as \<open>NewScanner\<close>
  builds it: the reader \<open>s.r\<close>, the unprocessed bytes \<open>s.buf[s.start:s.end]\<close>, the index
  \<open>s.start\<close>, the size \<open>len(s.buf)\<close> of the buffer, the bound \<open>s.maxTokenSize\<close>, the last
  token (\<open>None\<close> for nil) and the sticky error \<open>s.err\<close>.
\<close>

record Scanner =
  s_r :: io_Reader
  s_data :: string
  s_start :: nat
  s_len :: nat
  s_maxTokenSize :: nat
  s_token :: "string option"
  s_err :: "error option"

definition MaxScanTokenSize :: nat where
  "MaxScanTokenSize = 64 * 1024"

definition startBufSize :: nat where
  "startBufSize = 4096"

definition maxInt :: int where
  "maxInt = 2 ^ 63 - 1"

definition NewScanner :: "io_Reader \<Rightarrow> Scanner" where
  "NewScanner r = \<lparr>s_r = r, s_data = [], s_start = 0, s_len = 0,
     s_maxTokenSize = MaxScanTokenSize, s_token = None, s_err = None\<rparr>"

text \<open>\<open>dropCR\<close> drops a terminal carriage return.\<close>

definition dropCR :: "string \<Rightarrow> string" where
  "dropCR data = (if length data > 0 \<and> last data = CHR 0x0D then butlast data else data)"

text \<open>\<open>ScanLines\<close>: how far to advance and the token (\<open>None\<close> for nil, a request for more
  data). Its error result is always nil and is left out.\<close>

definition ScanLines :: "string \<Rightarrow> bool \<Rightarrow> nat \<times> string option" where
  "ScanLines data atEOF =
     (if atEOF \<and> length data = 0 then (0, None)
      else (case IndexByte data newline of
              Some i \<Rightarrow> (i + 1, Some (dropCR (take i data)))
            | None \<Rightarrow> if atEOF then (length data, Some (dropCR data)) else (0, None)))"

text \<open>\<open>setErr\<close> records the first error that is not \<open>io.EOF\<close>.\<close>

definition setErr :: "error \<Rightarrow> Scanner \<Rightarrow> Scanner" where
  "setErr e s = (if s_err s = None \<or> s_err s = Some io_EOF then s\<lparr>s_err := Some e\<rparr> else s)"

text \<open>
  The read at the end of an iteration of \<open>Scan\<close>: into the free part of the buffer, again
  while the read returns no bytes and no error, up to 101 reads, then \<open>io.ErrNoProgress\<close>.
\<close>

fun scan_read :: "nat \<Rightarrow> Scanner \<Rightarrow> Scanner" where
  "scan_read 0 s = setErr io_ErrNoProgress s"
| "scan_read (Suc i) s =
     (case io_Read (s_len s - (s_start s + length (s_data s))) (s_r s) of
        ((d, e), r') \<Rightarrow>
          (let s' = s\<lparr>s_data := s_data s @ d, s_r := r'\<rparr>
           in case e of
                Some err \<Rightarrow> setErr err s'
              | None \<Rightarrow> if length d > 0 then s' else scan_read i s'))"

text \<open>Before the read: the data is moved to the front of the buffer if there is much
  free space there or space is needed.\<close>

definition shift :: "Scanner \<Rightarrow> Scanner" where
  "shift s =
     (if s_start s > 0 \<and>
         (s_start s + length (s_data s) = s_len s \<or> s_start s > s_len s div 2)
      then s\<lparr>s_start := 0\<rparr> else s)"

text \<open>A full buffer is doubled, up to the maximal token size; at that size the scan
  fails with \<open>ErrTooLong\<close> (\<open>Inl\<close>).\<close>

definition grow :: "Scanner \<Rightarrow> Scanner + Scanner" where
  "grow s =
     (if s_start s + length (s_data s) = s_len s
      then (if s_len s \<ge> s_maxTokenSize s \<or> int (s_len s) > maxInt div 2
            then Inl (setErr bufio_ErrTooLong s)
            else (let newSize = s_len s * 2;
                      newSize = (if newSize = 0 then startBufSize else newSize);
                      newSize = min newSize (s_maxTokenSize s)
                  in Inr (s\<lparr>s_len := newSize, s_start := 0\<rparr>)))
      else Inr s)"

text \<open>
  The first part of an iteration of \<open>Scan\<close>: with data in the buffer or an error
  recorded, the split function is tried (at the end of the input when an error is
  recorded), the scanner advances and the token is kept. The result says whether there
  is a token.
\<close>

definition try_split :: "Scanner \<Rightarrow> bool \<times> Scanner" where
  "try_split s =
     (if length (s_data s) > 0 \<or> s_err s \<noteq> None
      then (case ScanLines (s_data s) (s_err s \<noteq> None) of
              (advance, token) \<Rightarrow>
                (token \<noteq> None,
                 s\<lparr>s_start := s_start s + advance,
                   s_data := drop advance (s_data s), s_token := token\<rparr>))
      else (False, s))"

lemma setErr_r [simp]: "s_r (setErr e s) = s_r s"
  by (simp add: setErr_def)

lemma setErr_data [simp]: "s_data (setErr e s) = s_data s"
  by (simp add: setErr_def)

lemma setErr_err: "s_err s = None \<Longrightarrow> s_err (setErr e s) = Some e"
  by (simp add: setErr_def)

lemma scan_read_measure:
  "s_err s = None \<Longrightarrow>
   (s_err (scan_read n s) \<noteq> None \<or> weight (s_r (scan_read n s)) < weight (s_r s))
   \<and> weight (s_r (scan_read n s)) \<le> weight (s_r s)"
proof (induction n arbitrary: s)
  case 0
  then show ?case by (simp add: setErr_err)
next
  case (Suc i)
  obtain d e r' where rd: "io_Read (s_len s - (s_start s + length (s_data s))) (s_r s) = ((d, e), r')"
    by (metis prod.exhaust)
  have le: "weight r' + length d \<le> weight (s_r s)" by (rule io_Read_weight[OF rd])
  let ?s' = "s\<lparr>s_data := s_data s @ d, s_r := r'\<rparr>"
  have e': "s_err ?s' = None" using Suc.prems by simp
  consider (err) x where "e = Some x" | (data) "e = None" "d \<noteq> []" | (empty) "e = None" "d = []"
    by (cases e) auto
  then show ?case
  proof cases
    case err
    then have "scan_read (Suc i) s = setErr x ?s'" using rd by simp
    then show ?thesis using le setErr_err[OF e'] by simp
  next
    case data
    then have "scan_read (Suc i) s = ?s'" using rd by simp
    moreover have "weight r' < weight (s_r s)" using le data by (cases d) auto
    ultimately show ?thesis by simp
  next
    case empty
    then have eq: "scan_read (Suc i) s = scan_read i ?s'" using rd by simp
    show ?thesis unfolding eq using Suc.IH[OF e'] le empty by auto
  qed
qed

lemma shift_fields [simp]:
  "s_r (shift s) = s_r s" "s_err (shift s) = s_err s" "s_data (shift s) = s_data s"
  "s_maxTokenSize (shift s) = s_maxTokenSize s" "s_len (shift s) = s_len s"
  by (simp_all add: shift_def)

lemma grow_Inr:
  "grow s = Inr s2 \<Longrightarrow>
     s_r s2 = s_r s \<and> s_err s2 = s_err s \<and> s_data s2 = s_data s
     \<and> s_maxTokenSize s2 = s_maxTokenSize s"
  by (auto simp: grow_def Let_def split: if_splits)

lemma try_split_fields:
  "try_split s = (found, s1) \<Longrightarrow>
     s_r s1 = s_r s \<and> s_err s1 = s_err s \<and> s_maxTokenSize s1 = s_maxTokenSize s
     \<and> s_len s1 = s_len s"
  by (auto simp: try_split_def split: if_splits prod.splits)

text \<open>
  \<open>Scan\<close>: with a token, return true. Without one, stop on a recorded error; else make
  room, read, and try again.
\<close>

function Scan :: "Scanner \<Rightarrow> bool \<times> Scanner" where
  "Scan s =
     (case try_split s of
        (found, s1) \<Rightarrow>
          if found then (True, s1)
          else if s_err s1 \<noteq> None then (False, s1\<lparr>s_start := 0, s_data := []\<rparr>)
          else (case grow (shift s1) of
                  Inl s2 \<Rightarrow> (False, s2)
                | Inr s2 \<Rightarrow> Scan (scan_read 101 s2)))"
  by pat_completeness auto
termination
proof (relation "measure (\<lambda>s. 2 * weight (s_r s) + (if s_err s = None then 1 else 0))")
  show "wf (measure (\<lambda>s. 2 * weight (s_r s) + (if s_err s = None then 1 else 0)))"
    by simp
next
  fix s :: Scanner and found :: bool and s1 s2 :: Scanner
  assume a: "(found, s1) = try_split s" "\<not> found" "\<not> s_err s1 \<noteq> None"
    "grow (shift s1) = Inr s2"
  have 1: "s_r s1 = s_r s" "s_err s1 = s_err s" using try_split_fields[OF a(1)[symmetric]] by auto
  have 2: "s_r s2 = s_r s1" "s_err s2 = s_err s1" using grow_Inr[OF a(4)] by auto
  have e: "s_err s2 = None" "s_err s = None" using a(3) 1 2 by auto
  show "(scan_read 101 s2, s)
      \<in> measure (\<lambda>s. 2 * weight (s_r s) + (if s_err s = None then 1 else 0))"
    using scan_read_measure[OF e(1), of 101] e 1 2 by auto
qed

declare Scan.simps [simp del]

text \<open>\<open>Err\<close>: the recorded error, unless it is \<open>io.EOF\<close>. \<open>Text\<close>: the token as a string.\<close>

definition Err :: "Scanner \<Rightarrow> error option" where
  "Err s = (if s_err s = Some io_EOF then None else s_err s)"

definition Text :: "Scanner \<Rightarrow> string" where
  "Text s = (case s_token s of None \<Rightarrow> [] | Some t \<Rightarrow> t)"

subsection \<open>The reader of standard error: cmdReadErr\<close>

text \<open>\<open>strings.HasPrefix\<close>.\<close>

definition HasPrefix :: "string \<Rightarrow> string \<Rightarrow> bool" where
  "HasPrefix s prefix = (length s \<ge> length prefix \<and> take (length prefix) s = prefix)"

text \<open>The body of the loop: the switch on the prefix of the line. \<open>msg[3:]\<close> is
  \<open>drop 3 msg\<close>; in every case that takes it the line has at least three bytes.\<close>

definition route_line :: "string \<Rightarrow> 'm world \<Rightarrow> 'm world" where
  "route_line msg w =
     (if HasPrefix msg ''E! '' then emit (Log_Error (drop 3 msg)) w
      else if HasPrefix msg ''W! '' then emit (Log_Warn (drop 3 msg)) w
      else if HasPrefix msg ''I! '' then emit (Log_Info (drop 3 msg)) w
      else if HasPrefix msg ''D! '' then emit (Log_Debug (drop 3 msg)) w
      else if HasPrefix msg ''T! '' then emit (Log_Trace (drop 3 msg)) w
      else emit (Log_Errorf ''stderr: %q'' msg) w)"

lemma ScanLines_token:
  assumes "ScanLines data atEOF = (advance, Some t)"
  shows "0 < advance \<and> advance \<le> length data"
proof (cases "IndexByte data newline")
  case None
  then have "data \<noteq> []" "advance = length data"
    using assms by (auto simp: ScanLines_def split: if_splits)
  then show ?thesis by simp
next
  case (Some i)
  then have "advance = i + 1" using assms by (auto simp: ScanLines_def split: if_splits)
  moreover have "i < length data" using IndexByte_Some[OF Some] by simp
  ultimately show ?thesis by simp
qed

lemma scan_read_holds:
  "weight (s_r (scan_read n s)) + length (s_data (scan_read n s))
       \<le> weight (s_r s) + length (s_data s)"
proof (induction n arbitrary: s)
  case 0
  then show ?case by simp
next
  case (Suc i)
  obtain d e r' where rd: "io_Read (s_len s - (s_start s + length (s_data s))) (s_r s) = ((d, e), r')"
    by (metis prod.exhaust)
  have le: "weight r' + length d \<le> weight (s_r s)" by (rule io_Read_weight[OF rd])
  let ?s' = "s\<lparr>s_data := s_data s @ d, s_r := r'\<rparr>"
  have "weight (s_r (scan_read i ?s')) + length (s_data (scan_read i ?s'))
       \<le> weight (s_r ?s') + length (s_data ?s')" by (rule Suc.IH)
  then show ?case using rd le by (cases e) (auto simp: Let_def)
qed

lemma Scan_True_holds:
  "Scan s = (True, s') \<Longrightarrow>
     weight (s_r s') + length (s_data s') < weight (s_r s) + length (s_data s)"
proof (induction s arbitrary: s' rule: Scan.induct)
  case (1 s)
  obtain found s1 where ts: "try_split s = (found, s1)" by (metis prod.exhaust)
  show ?case
  proof (cases found)
    case True
    then have s': "s' = s1" using "1.prems" ts by (simp add: Scan.simps[of s])
    obtain advance t where sl: "ScanLines (s_data s) (s_err s \<noteq> None) = (advance, Some t)"
      and s1: "s1 = s\<lparr>s_start := s_start s + advance, s_data := drop advance (s_data s),
                 s_token := Some t\<rparr>"
      using ts True by (auto simp: try_split_def split: if_splits prod.splits)
    have "0 < advance" "advance \<le> length (s_data s)" using ScanLines_token[OF sl] by auto
    then show ?thesis unfolding s' s1 by simp
  next
    case False
    note nf = this
    have d1: "s_r s1 = s_r s" "length (s_data s1) \<le> length (s_data s)"
      using ts by (auto simp: try_split_def split: if_splits prod.splits)
    show ?thesis
    proof (cases "s_err s1 \<noteq> None")
      case True
      then show ?thesis using "1.prems" ts nf by (simp add: Scan.simps[of s])
    next
      case False
      note ne = this
      show ?thesis
      proof (cases "grow (shift s1)")
        case (Inl s2)
        then show ?thesis using "1.prems" ts nf ne by (simp add: Scan.simps[of s])
      next
        case (Inr s2)
        then have eq: "Scan (scan_read 101 s2) = (True, s')"
          using "1.prems" ts nf ne by (simp add: Scan.simps[of s])
        have ih: "weight (s_r s') + length (s_data s')
            < weight (s_r (scan_read 101 s2)) + length (s_data (scan_read 101 s2))"
          using "1.IH"[OF ts[symmetric] nf ne Inr eq] .
        have "s_r s2 = s_r s1" "s_data s2 = s_data s1" using grow_Inr[OF Inr] by auto
        then show ?thesis using ih scan_read_holds[of 101 s2] d1 by simp
      qed
    qed
  qed
qed

text \<open>The loop of \<open>cmdReadErr\<close>: while \<open>Scan\<close> returns true, route the text of the token.\<close>

function cmdReadErr_loop :: "Scanner \<Rightarrow> 'm world \<Rightarrow> Scanner \<times> 'm world" where
  "cmdReadErr_loop scanner w =
     (case Scan scanner of
        (True, scanner') \<Rightarrow> cmdReadErr_loop scanner' (route_line (Text scanner') w)
      | (False, scanner') \<Rightarrow> (scanner', w))"
  by pat_completeness auto
termination
proof (relation "measure (\<lambda>(s, w). weight (s_r s) + length (s_data s))")
  show "wf (measure (\<lambda>(s, w). weight (s_r s) + length (s_data s)))" by simp
next
  fix scanner :: Scanner and w :: "'m world" and x1 :: bool and scanner' :: Scanner
  assume "(x1, scanner') = Scan scanner" "x1 = True"
  then have "Scan scanner = (True, scanner')" by simp
  from Scan_True_holds[OF this]
  show "((scanner', route_line (Text scanner') w), scanner, w)
      \<in> measure (\<lambda>(s, w). weight (s_r s) + length (s_data s))"
    by simp
qed

declare cmdReadErr_loop.simps [simp del]

text \<open>\<open>cmdReadErr\<close>: a scanner over the stream, the loop, then the report of the error the
  scanner stopped on, if any.\<close>

definition cmdReadErr :: "io_Reader \<Rightarrow> 'm world \<Rightarrow> 'm world" where
  "cmdReadErr out w =
     (case cmdReadErr_loop (NewScanner out) w of
        (scanner, w') \<Rightarrow>
          (case Err scanner of
             Some err \<Rightarrow> emit (AddError (Errorf ''error reading stderr: '' err)) w'
           | None \<Rightarrow> w'))"

text \<open>
  How the logger renders \<open>Errorf("stderr: %q", msg)\<close>: \<open>%q\<close> is \<open>strconv.Quote\<close>. For a string
  of ASCII bytes: a double quote and a backslash are escaped with a backslash, the
  printable bytes stand for themselves, the control characters are written with their
  Go escapes or as \<open>\\x\<close> and two hexadecimal digits, and the whole is put between double
  quotes. A string with a byte above 127 depends on Unicode tables that are not
  modelled: \<open>None\<close>.
\<close>

definition hex_digit :: "nat \<Rightarrow> char" where
  "hex_digit n = (''0123456789abcdef'' ! (n mod 16))"

definition quote_byte :: "char \<Rightarrow> string" where
  "quote_byte c =
     (if c = CHR 0x22 then [CHR 0x5C, CHR 0x22]
      else if c = CHR 0x5C then [CHR 0x5C, CHR 0x5C]
      else if 32 \<le> (of_char c :: nat) \<and> (of_char c :: nat) \<le> 126 then [c]
      else if c = CHR 0x07 then [CHR 0x5C, CHR ''a'']
      else if c = CHR 0x08 then [CHR 0x5C, CHR ''b'']
      else if c = CHR 0x0C then [CHR 0x5C, CHR ''f'']
      else if c = CHR 0x0A then [CHR 0x5C, CHR ''n'']
      else if c = CHR 0x0D then [CHR 0x5C, CHR ''r'']
      else if c = CHR 0x09 then [CHR 0x5C, CHR ''t'']
      else if c = CHR 0x0B then [CHR 0x5C, CHR ''v'']
      else [CHR 0x5C, CHR ''x'', hex_digit (of_char c div 16), hex_digit (of_char c)])"

definition strconv_Quote :: "string \<Rightarrow> string option" where
  "strconv_Quote s =
     (if list_all (\<lambda>c. (of_char c :: nat) < 128) s
      then Some ([CHR 0x22] @ concat (map quote_byte s) @ [CHR 0x22])
      else None)"

text \<open>The text of a format with one verb \<open>%q\<close> and its argument.\<close>

fun Sprintf_q :: "string \<Rightarrow> string \<Rightarrow> string option" where
  "Sprintf_q [] a = Some []"
| "Sprintf_q [c] a = Some [c]"
| "Sprintf_q (c # d # rest) a =
     (if c = CHR ''%'' \<and> d = CHR ''q'' then map_option (\<lambda>q. q @ rest) (strconv_Quote a)
      else map_option ((#) c) (Sprintf_q (d # rest) a))"

subsection \<open>Streams of lines for the scanner\<close>

text \<open>
  A scanner in a regular state over a stream that delivers bytes only: the data lies
  inside the buffer, the buffer is no larger than the maximal token size of
  \<open>NewScanner\<close>, and no error is recorded but the end of the stream.
\<close>

definition scan_inv :: "Scanner \<Rightarrow> bool" where
  "scan_inv s =
     (s_start s + length (s_data s) \<le> s_len s \<and> s_len s \<le> s_maxTokenSize s
      \<and> s_maxTokenSize s = MaxScanTokenSize \<and> chunks_only (s_r s)
      \<and> (s_err s = None \<or> (s_err s = Some io_EOF \<and> s_r s = [])))"

text \<open>The bytes a scanner has not handed out: its data, then the stream.\<close>

definition scan_rest :: "Scanner \<Rightarrow> string" where
  "scan_rest s = s_data s @ concat (map fst (s_r s))"

text \<open>The text of a complete line: the line without its newline and without a carriage
  return before it.\<close>

definition line_text :: "string \<Rightarrow> string" where
  "line_text l = dropCR (butlast l)"

text \<open>Complete lines that fit the maximal token size, newline included.\<close>

definition lines_fit :: "string list \<Rightarrow> bool" where
  "lines_fit ls = list_all (\<lambda>l. is_record newline l \<and> length l \<le> MaxScanTokenSize) ls"

subsection \<open>Example inputs\<close>

text \<open>The world of a process that has just started.\<close>

definition fresh_world :: "'m world" where
  "fresh_world = \<lparr>events = [], once = False\<rparr>"

text \<open>
  A parser for the examples. Its state counts the calls; a metric is the text of its
  record. The record \<open>bad\<close> is malformed (an error and no metric), the record \<open>half\<close>
  gives a metric and an error, an empty line gives nothing.
\<close>

definition ex_parser :: "(nat, string) parser_fn" where
  "ex_parser n data =
     (if data = ''bad'' @ [newline] then (([], Some (ParseError ''bad line'')), Suc n)
      else if data = ''half'' @ [newline] then (([''half''], Some (ErrorNew ''rest lost'')), Suc n)
      else if data = [newline] then (([], None), Suc n)
      else (([data], None), Suc n))"

section \<open>Properties of the model\<close>

subsection \<open>The events of the batch reader\<close>

lemma events_emit [simp]: "events (emit ev w) = events w @ [ev]"
  by (simp add: emit_def)

lemma once_emit [simp]: "once (emit ev w) = once w"
  by (simp add: emit_def)

lemma events_add_metrics [simp]:
  "events (foldl (\<lambda>w metric. emit (AddMetric metric) w) w ms) = events w @ map AddMetric ms"
  by (induction ms arbitrary: w) auto

lemma once_add_metrics [simp]:
  "once (foldl (\<lambda>w metric. emit (AddMetric metric) w) w ms) = once w"
  by (induction ms arbitrary: w) auto

text \<open>The calls \<open>forward_result\<close> makes, in order.\<close>

lemma events_forward_result:
  "events (forward_result (ms, err) w) = events w
     @ (case err of Some e \<Rightarrow> [AddError (Errorf ''parse error: '' e)] | None \<Rightarrow> [])
     @ (if ms = [] \<and> \<not> once w then [Log_Debug NoMetricsCreatedMsg] else [])
     @ map AddMetric ms"
  by (cases err) (simp_all add: forward_result_def once_Do_def Let_def)

lemma once_forward_result: "once (forward_result (ms, err) w) = (once w \<or> ms = [])"
  by (cases err) (simp_all add: forward_result_def once_Do_def Let_def)

lemma forwarded_append [simp]: "forwarded (xs @ ys) = forwarded xs @ forwarded ys"
  by (induction xs rule: forwarded.induct) auto

lemma parsed_append [simp]: "parsed (xs @ ys) = parsed xs @ parsed ys"
  by (induction xs rule: parsed.induct) auto

lemma forwarded_AddMetric [simp]: "forwarded (map AddMetric ms) = ms"
  by (induction ms) auto

lemma parsed_AddMetric [simp]: "parsed (map AddMetric ms) = []"
  by (induction ms) auto

lemma parse_record_events:
  assumes "P p r = ((ms, err), p')"
  shows "\<exists>evs. parse_record P r (p, w) = (p', forward_result (ms, err) (emit (Parser_Parse r) w))
     \<and> events (forward_result (ms, err) (emit (Parser_Parse r) w)) = events w @ Parser_Parse r # evs
     \<and> parsed evs = [] \<and> forwarded evs = ms"
proof -
  let ?evs = "(case err of Some e \<Rightarrow> [AddError (Errorf ''parse error: '' e)] | None \<Rightarrow> [])
     @ (if ms = [] \<and> \<not> once w then [Log_Debug NoMetricsCreatedMsg] else [])
     @ map AddMetric ms"
  have "parsed ?evs = []" "forwarded ?evs = ms" by (cases err; simp)+
  moreover have "events (forward_result (ms, err) (emit (Parser_Parse r) w)) = events w @ Parser_Parse r # ?evs"
    by (simp add: events_forward_result)
  moreover have "parse_record P r (p, w) = (p', forward_result (ms, err) (emit (Parser_Parse r) w))"
    using assms by (simp add: parse_record_def)
  ultimately show ?thesis by blast
qed

lemma foldl_parse_events:
  "\<exists>evs. events (snd (foldl (\<lambda>s r. parse_record P r s) (p, w) recs)) = events w @ evs
     \<and> parsed evs = recs \<and> forwarded evs = parser_metrics P p recs"
proof (induction recs arbitrary: p w)
  case Nil
  then show ?case by simp
next
  case (Cons r recs)
  obtain ms err p' where P: "P p r = ((ms, err), p')" by (metis prod.exhaust)
  obtain evs1 where 1: "parse_record P r (p, w) = (p', forward_result (ms, err) (emit (Parser_Parse r) w))"
    "events (forward_result (ms, err) (emit (Parser_Parse r) w)) = events w @ Parser_Parse r # evs1"
    "parsed evs1 = []" "forwarded evs1 = ms"
    using parse_record_events[of P p r ms err p' w, OF P] by blast
  let ?w1 = "forward_result (ms, err) (emit (Parser_Parse r) w)"
  obtain evs2 where 2: "events (snd (foldl (\<lambda>s r. parse_record P r s) (p', ?w1) recs)) = events ?w1 @ evs2"
    "parsed evs2 = recs" "forwarded evs2 = parser_metrics P p' recs"
    using Cons.IH[of p' ?w1] by blast
  have "events (snd (foldl (\<lambda>s r. parse_record P r s) (p, w) (r # recs)))
      = events w @ (Parser_Parse r # evs1 @ evs2)"
    using 1(1,2) 2(1) by simp
  moreover have "parsed (Parser_Parse r # evs1 @ evs2) = r # recs" using 1(3) 2(2) by simp
  moreover have "forwarded (Parser_Parse r # evs1 @ evs2) = parser_metrics P p (r # recs)"
    using 1(4) 2(3) P by simp
  ultimately show ?case by blast
qed

lemma cmdReadOut_chunked:
  assumes "list_all (\<lambda>d. d \<noteq> []) chunks" and "complete newline (concat chunks)"
  shows "cmdReadOut e P p (chunked chunks) w
     = foldl (\<lambda>s r. parse_record P r s) (p, w) (split_after newline (concat chunks))"
proof -
  let ?b = "NewReaderSize (chunked chunks) (BufferSize e)"
  have "chunks_only (chunked chunks)" using assms(1)
    by (induction chunks) (auto simp: chunks_only_def chunked_def)
  then have c: "clean ?b" by (simp add: clean_def NewReaderSize_def)
  have "concat (map fst (chunked chunks)) = concat chunks"
    by (simp add: chunked_def comp_def)
  then have r: "rest_of ?b = concat (split_after newline (concat chunks))"
    by (simp add: rest_of_def NewReaderSize_def split_after_concat)
  show ?thesis unfolding cmdReadOut_def
    by (rule loop_records[OF c r split_after_records[OF assms(2)]])
qed

lemma cmdReadOut_iter_events:
  "cmdReadOut_iter P s w = (s', w') \<Longrightarrow> \<exists>evs. events w' = events w @ evs"
proof -
  assume it: "cmdReadOut_iter P s w = (s', w')"
  obtain rdr p where s: "s = (rdr, p)" by (cases s)
  obtain data e rdr' where rb: "ReadBytes rdr newline = (data, e, rdr')" by (metis prod.exhaust)
  show ?thesis
  proof (cases e)
    case (Some err)
    then have "w' = w \<or> w' = emit (AddError (Errorf ''error reading stdout: '' err)) w"
      using it s rb by (auto simp: cmdReadOut_iter_def split: if_splits)
    then show ?thesis by auto
  next
    case None
    obtain ms perr p' where P: "P p data = ((ms, perr), p')" by (metis prod.exhaust)
    have "w' = forward_result (ms, perr) (emit (Parser_Parse data) w)"
      using it s rb None P by (simp add: cmdReadOut_iter_def parse_record_def)
    then show ?thesis by (simp add: events_forward_result)
  qed
qed

lemma cmdReadOut_loop_events:
  "\<exists>evs. events (snd (cmdReadOut_loop P s w)) = events w @ evs"
proof (induction P s w rule: cmdReadOut_loop.induct)
  case (1 P s w)
  obtain s' w' where it: "cmdReadOut_iter P s w = (s', w')" by (metis prod.exhaust)
  obtain evs1 where e1: "events w' = events w @ evs1"
    using cmdReadOut_iter_events[OF it] by blast
  show ?case
  proof (cases s')
    case None
    then have "cmdReadOut_loop P s w = (snd s, w')"
      using it by (simp add: cmdReadOut_loop.simps[of P s w])
    then show ?thesis using e1 by simp
  next
    case (Some s1)
    then have eq: "cmdReadOut_loop P s w = cmdReadOut_loop P s1 w'"
      using it by (simp add: cmdReadOut_loop.simps[of P s w])
    obtain evs2 where "events (snd (cmdReadOut_loop P s1 w')) = events w' @ evs2"
      using "1.IH"[OF it[symmetric] Some] by blast
    then show ?thesis using eq e1 by simp
  qed
qed


lemma foldl_parse_append:
  "foldl (\<lambda>s r. parse_record P r s) s (pre @ bad # post)
     = foldl (\<lambda>s r. parse_record P r s) (parse_record P bad (foldl (\<lambda>s r. parse_record P r s) s pre)) post"
  by simp


subsection \<open>The once flag\<close>

lemma notices_emit:
  "notices (emit ev w) = notices w + (if ev = Log_Debug NoMetricsCreatedMsg then 1 else 0)"
  by (simp add: notices_def)

lemma notices_forward_result:
  "notices (forward_result (ms, err) w) = notices w + (if ms = [] \<and> \<not> once w then 1 else 0)"
proof -
  have "filter (\<lambda>ev. ev = Log_Debug NoMetricsCreatedMsg) (map AddMetric ms) = []"
    by (induction ms) auto
  then show ?thesis
    by (cases err) (simp_all add: notices_def events_forward_result)
qed

text \<open>One iteration never clears the flag, and logs the notice only when it sets it.\<close>

lemma cmdReadOut_iter_once:
  assumes "cmdReadOut_iter P s w = (s', w')"
  shows "(once w \<longrightarrow> once w') \<and>
     (notices w' = notices w \<or> (\<not> once w \<and> once w' \<and> notices w' = notices w + 1))"
proof -
  obtain rdr p where s: "s = (rdr, p)" by (cases s)
  obtain data e rdr' where rb: "ReadBytes rdr newline = (data, e, rdr')" by (metis prod.exhaust)
  show ?thesis
  proof (cases e)
    case (Some err)
    then have "w' = w \<or> w' = emit (AddError (Errorf ''error reading stdout: '' err)) w"
      using assms s rb by (auto simp: cmdReadOut_iter_def split: if_splits)
    then show ?thesis by (auto simp: notices_emit)
  next
    case None
    obtain ms perr p' where P: "P p data = ((ms, perr), p')" by (metis prod.exhaust)
    have "w' = forward_result (ms, perr) (emit (Parser_Parse data) w)"
      using assms s rb None P by (simp add: cmdReadOut_iter_def parse_record_def)
    then show ?thesis by (simp add: notices_forward_result once_forward_result notices_emit)
  qed
qed

lemma step_instance_once:
  assumes "step_instance inst w = (inst', w')"
  shows "(once w \<longrightarrow> once w') \<and>
     (notices w' = notices w \<or> (\<not> once w \<and> once w' \<and> notices w' = notices w + 1))"
proof -
  obtain P st where inst: "inst = (P, st)" by (cases inst)
  show ?thesis
  proof (cases st)
    case None
    then show ?thesis using assms inst by simp
  next
    case (Some s)
    obtain s' where "cmdReadOut_iter P s w = (s', w')"
      using assms inst Some by (auto split: prod.splits)
    then show ?thesis by (rule cmdReadOut_iter_once)
  qed
qed

lemma run_schedule_once:
  "(once w \<longrightarrow> once (snd (run_schedule sched insts w))) \<and>
     (notices (snd (run_schedule sched insts w)) = notices w
      \<or> (\<not> once w \<and> once (snd (run_schedule sched insts w))
          \<and> notices (snd (run_schedule sched insts w)) = notices w + 1))"
proof (induction sched arbitrary: insts w)
  case Nil
  then show ?case by simp
next
  case (Cons i sched)
  show ?case
  proof (cases "i < length insts")
    case False
    then show ?thesis using Cons.IH[where insts = insts and w = w] by simp
  next
    case True
    obtain inst' w' where st: "step_instance (insts ! i) w = (inst', w')" by (metis prod.exhaust)
    have eq: "run_schedule (i # sched) insts w = run_schedule sched (insts[i := inst']) w'"
      using True st by simp
    note a = step_instance_once[OF st]
    note b = Cons.IH[where insts = "insts[i := inst']" and w = w']
    show ?thesis unfolding eq using a b by auto
  qed
qed


subsection \<open>The streaming reader\<close>

lemma errors_As_ParseError_not_EOF:
  "errors_As_ParseError err = Some pe \<Longrightarrow> \<not> errors_Is err influx_EOF"
  by (induction err) auto

lemma cmdReadOutStream_goes_on:
  "list_all goes_on pre \<Longrightarrow>
     cmdReadOutStream (pre @ rest) w
       = cmdReadOutStream rest (w\<lparr>events := events w @ map stream_event pre\<rparr>)"
proof (induction pre arbitrary: w)
  case Nil
  then show ?case by simp
next
  case (Cons r pre)
  then have ih: "\<And>w. cmdReadOutStream (pre @ rest) w
       = cmdReadOutStream rest (w\<lparr>events := events w @ map stream_event pre\<rparr>)"
    by simp
  show ?case
  proof (cases r)
    case (Next_Metric m)
    then show ?thesis using ih by (simp add: emit_def)
  next
    case (Next_Err err)
    then obtain pe where "errors_As_ParseError err = Some pe" "\<not> errors_Is err influx_EOF"
      using Cons.prems by auto
    then show ?thesis using ih Next_Err by (simp add: emit_def)
  qed
qed


subsection \<open>The selected reader\<close>

lemma Start_outputReader:
  "Start e new_err start_err w = ((err, e'), w') \<Longrightarrow>
     outputReader e' = outputReader e
     \<and> (\<forall>pr. process e' = Some pr \<longrightarrow> ReadStdoutFn pr = outputReader e)"
  by (auto simp: Start_def Let_def split: option.splits if_splits)

lemma Stop_outputReader:
  "Stop e = Some e' \<Longrightarrow>
     outputReader e' = outputReader e
     \<and> (\<forall>pr'. process e' = Some pr' \<longrightarrow>
           (\<exists>pr. process e = Some pr \<and> ReadStdoutFn pr' = ReadStdoutFn pr))"
  by (auto simp: Stop_def split: option.splits)

lemma run_calls_outputReader:
  "run_calls cs e w = Some (e', w') \<Longrightarrow>
     (\<forall>pr. process e = Some pr \<longrightarrow> ReadStdoutFn pr = outputReader e) \<Longrightarrow>
     outputReader e' = outputReader e
     \<and> (\<forall>pr. process e' = Some pr \<longrightarrow> ReadStdoutFn pr = outputReader e)"
proof (induction cs e w rule: run_calls.induct)
  case (1 e w)
  then show ?case by simp
next
  case (2 cs e w)
  then show ?case by simp
next
  case (3 new_err start_err cs e w)
  obtain err e1 w1 where st: "Start e new_err start_err w = ((err, e1), w1)"
    by (metis prod.exhaust)
  note s = Start_outputReader[OF st]
  have r: "run_calls cs e1 w1 = Some (e', w')" using "3.prems"(1) st by simp
  have "outputReader e' = outputReader e1
     \<and> (\<forall>pr. process e' = Some pr \<longrightarrow> ReadStdoutFn pr = outputReader e1)"
    using "3.IH"[OF st[symmetric] refl r] s by simp
  then show ?case using s by simp
next
  case (4 cs e w)
  obtain e1 where st: "Stop e = Some e1" and r: "run_calls cs e1 w = Some (e', w')"
    using "4.prems"(1) by (auto split: option.splits)
  note s = Stop_outputReader[OF st]
  have inv: "\<forall>pr. process e1 = Some pr \<longrightarrow> ReadStdoutFn pr = outputReader e1"
    using s "4.prems"(2) by auto
  have "outputReader e' = outputReader e1
     \<and> (\<forall>pr. process e' = Some pr \<longrightarrow> ReadStdoutFn pr = outputReader e1)"
    using "4.IH"[OF st r inv] .
  then show ?case using s by simp
qed

lemma SetParser_outputReader:
  "outputReader (SetParser e p)
     = Some (if p = models_RunningParser influx_Parser then fn_cmdReadOutStream else fn_cmdReadOut)"
  by (auto simp: SetParser_def Let_def split: parser_value.splits)

lemma SetParser_process: "process (SetParser e p) = process e"
  by (auto simp: SetParser_def Let_def split: parser_value.splits)


subsection \<open>The scanner on streams of lines\<close>

lemma scan_read_numeral:
  "scan_read (numeral k) s =
     (case io_Read (s_len s - (s_start s + length (s_data s))) (s_r s) of
        ((d, e), r') \<Rightarrow>
          (let s' = s\<lparr>s_data := s_data s @ d, s_r := r'\<rparr>
           in case e of
                Some err \<Rightarrow> setErr err s'
              | None \<Rightarrow> if length d > 0 then s' else scan_read (pred_numeral k) s'))"
  by (simp add: numeral_eq_Suc)

text \<open>The equations that evaluate a scan on a given stream.\<close>

lemmas scan_eval = Scan.simps try_split_def NewScanner_def chunked_def grow_def shift_def
  ScanLines_def MaxScanTokenSize_def startBufSize_def maxInt_def Let_def setErr_def newline_def
  dropCR_def scan_read_numeral

lemmas cmdReadErr_eval = cmdReadErr_def cmdReadErr_loop.simps route_line_def HasPrefix_def
  Err_def Text_def emit_def fresh_world_def


lemma IndexByte_notin: "c \<notin> set xs \<Longrightarrow> IndexByte xs c = None"
  by (simp add: IndexByte_None)

text \<open>Data without the delimiter, at the head of a row of records, lies inside the first
  record and is shorter than it.\<close>

lemma prefix_of_record:
  assumes "is_record d l" and "data @ x = l @ y" and "d \<notin> set data"
  shows "length data < length l"
proof (rule ccontr)
  assume "\<not> length data < length l"
  then have "length l \<le> length data" by simp
  then have "l = take (length l) data"
    using assms(2) by (metis append_eq_append_conv_if)
  then have "set l \<subseteq> set data" by (metis set_take_subset)
  moreover have "d \<in> set l" using assms(1) by (auto simp: is_record_iff)
  ultimately show False using assms(3) by auto
qed

lemma scan_read_lines:
  assumes inv: "scan_inv s" and err: "s_err s = None"
    and room: "s_start s + length (s_data s) < s_len s"
  shows "scan_inv (scan_read (Suc n) s) \<and> scan_rest (scan_read (Suc n) s) = scan_rest s"
proof (cases "s_r s")
  case Nil
  then have "scan_read (Suc n) s = setErr io_EOF (s\<lparr>s_data := s_data s @ [], s_r := []\<rparr>)"
    by simp
  then have eq: "scan_read (Suc n) s = s\<lparr>s_err := Some io_EOF\<rparr>"
    using err Nil by (simp add: setErr_def)
  show ?thesis unfolding eq using inv Nil by (simp add: scan_inv_def scan_rest_def)
next
  case (Cons a rest)
  obtain d e where a: "a = (d, e)" by (cases a)
  have d: "d \<noteq> []" "e = None" and chunks: "chunks_only rest"
    using inv Cons a by (auto simp: scan_inv_def chunks_only_def)
  define k where "k = s_len s - (s_start s + length (s_data s))"
  have k: "0 < k" "s_start s + length (s_data s) + k \<le> s_len s" using room by (simp_all add: k_def)
  show ?thesis
  proof (cases "length d \<le> k")
    case True
    then have "io_Read k (s_r s) = ((d, None), rest)" using Cons a d by simp
    then have eq: "scan_read (Suc n) s = s\<lparr>s_data := s_data s @ d, s_r := rest\<rparr>"
      using d by (simp add: k_def)
    show ?thesis unfolding eq using inv Cons a chunks True k err
      by (simp add: scan_inv_def scan_rest_def)
  next
    case False
    then have ne: "take k d \<noteq> []" "drop k d \<noteq> []" using k d by auto
    have "io_Read k (s_r s) = ((take k d, None), (drop k d, None) # rest)"
      using Cons a d False by simp
    then have eq: "scan_read (Suc n) s
        = s\<lparr>s_data := s_data s @ take k d, s_r := (drop k d, None) # rest\<rparr>"
      using ne by (simp add: k_def)
    have "length (take k d) = k" using False by simp
    then show ?thesis unfolding eq using inv Cons a chunks k err ne(2)
      by (simp add: scan_inv_def scan_rest_def chunks_only_def)
  qed
qed

lemma shift_grow_room:
  assumes inv: "scan_inv s" and err: "s_err s = None"
    and short: "length (s_data s) < MaxScanTokenSize"
  shows "\<exists>s2. grow (shift s) = Inr s2 \<and> scan_inv s2 \<and> s_data s2 = s_data s \<and> s_r s2 = s_r s
     \<and> s_err s2 = None \<and> s_start s2 + length (s_data s2) < s_len s2"
proof -
  let ?t = "shift s"
  have it: "scan_inv ?t" using inv by (auto simp: scan_inv_def shift_def)
  show ?thesis
  proof (cases "s_start ?t + length (s_data ?t) = s_len ?t")
    case False
    then have "grow ?t = Inr ?t" by (simp add: grow_def)
    moreover have "s_start ?t + length (s_data ?t) < s_len ?t"
      using False it by (simp add: scan_inv_def)
    ultimately show ?thesis using it err by simp
  next
    case True
    have st0: "s_start ?t = 0" using True by (auto simp: shift_def split: if_splits)
    then have len: "s_len ?t = length (s_data s)" using True by simp
    have max: "s_maxTokenSize ?t = MaxScanTokenSize" using it by (simp add: scan_inv_def)
    have lt: "s_len ?t < MaxScanTokenSize" using len short by simp
    have small: "\<not> int (s_len ?t) > maxInt div 2"
      using lt by (simp add: MaxScanTokenSize_def maxInt_def)
    define n where "n = min (if s_len ?t * 2 = 0 then startBufSize else s_len ?t * 2) MaxScanTokenSize"
    have g: "grow ?t = Inr (?t\<lparr>s_len := n, s_start := 0\<rparr>)"
      using True lt small max by (simp add: grow_def Let_def n_def)
    have n: "s_len ?t < n" "n \<le> MaxScanTokenSize"
      using lt by (auto simp: n_def startBufSize_def MaxScanTokenSize_def)
    have "scan_inv (?t\<lparr>s_len := n, s_start := 0\<rparr>)"
      using it n len by (simp add: scan_inv_def)
    then show ?thesis using g n len err by simp
  qed
qed

lemma scan_read_err:
  assumes inv: "scan_inv s" and err: "s_err s = None"
    and room: "s_start s + length (s_data s) < s_len s"
  shows "s_err (scan_read (Suc n) s) = (if s_r s = [] then Some io_EOF else None)"
proof (cases "s_r s")
  case Nil
  then have "scan_read (Suc n) s = setErr io_EOF (s\<lparr>s_data := s_data s @ [], s_r := []\<rparr>)"
    by simp
  then show ?thesis using err Nil by (simp add: setErr_def)
next
  case (Cons a rest)
  obtain d e where a: "a = (d, e)" by (cases a)
  have d: "d \<noteq> []" "e = None"
    using inv Cons a by (auto simp: scan_inv_def chunks_only_def)
  define k where "k = s_len s - (s_start s + length (s_data s))"
  have k: "0 < k" using room by (simp add: k_def)
  have "\<exists>d' r'. io_Read k (s_r s) = ((d', None), r') \<and> d' \<noteq> []"
    using Cons a d k by (cases "length d \<le> k") auto
  then obtain d' r' where io: "io_Read k (s_r s) = ((d', None), r')" "d' \<noteq> []" by blast
  have "scan_read (Suc n) s = s\<lparr>s_data := s_data s @ d', s_r := r'\<rparr>"
    using io by (simp add: k_def)
  then show ?thesis using err Cons by simp
qed

text \<open>An iteration of \<open>Scan\<close> that finds no newline in the data it holds, with room left
  under the maximal token size: it reads and scans on.\<close>

lemma scan_step:
  assumes inv: "scan_inv s" and err: "s_err s = None" and nl: "newline \<notin> set (s_data s)"
    and short: "length (s_data s) < MaxScanTokenSize" and ts: "try_split s = (found, s1)"
  shows "\<not> found \<and> \<not> s_err s1 \<noteq> None
     \<and> (\<exists>s2. grow (shift s1) = Inr s2 \<and> Scan s = Scan (scan_read 101 s2)
           \<and> scan_inv (scan_read 101 s2) \<and> scan_rest (scan_read 101 s2) = scan_rest s
           \<and> s_err (scan_read 101 s2) = (if s_r s = [] then Some io_EOF else None))"
proof -
  have sl: "ScanLines (s_data s) False = (0, None)"
    using nl by (simp add: ScanLines_def IndexByte_notin)
  have nf: "\<not> found" and s1: "s_data s1 = s_data s" "s_start s1 = s_start s" "s_r s1 = s_r s"
    "s_err s1 = None" "s_len s1 = s_len s" "s_maxTokenSize s1 = s_maxTokenSize s"
    using ts sl err by (auto simp: try_split_def split: if_splits)
  have inv1: "scan_inv s1" using inv s1 err by (simp add: scan_inv_def)
  have short1: "length (s_data s1) < MaxScanTokenSize" using short s1 by simp
  obtain s2 where g: "grow (shift s1) = Inr s2" and s2: "scan_inv s2" "s_data s2 = s_data s1"
    "s_r s2 = s_r s1" "s_err s2 = None" "s_start s2 + length (s_data s2) < s_len s2"
    using shift_grow_room[OF inv1 s1(4) short1] by blast
  have ne: "\<not> s_err s1 \<noteq> None" using s1 by simp
  have eq: "Scan s = Scan (scan_read 101 s2)"
    using ts nf ne g by (simp add: Scan.simps[of s])
  have "(101::nat) = Suc 100" by simp
  then have r: "scan_inv (scan_read 101 s2)" "scan_rest (scan_read 101 s2) = scan_rest s2"
    "s_err (scan_read 101 s2) = (if s_r s2 = [] then Some io_EOF else None)"
    using scan_read_lines[OF s2(1) s2(4) s2(5), of 100] scan_read_err[OF s2(1) s2(4) s2(5), of 100]
    by (simp_all del: scan_read.simps)
  have "scan_rest s2 = scan_rest s" using s1 s2 by (simp add: scan_rest_def)
  then show ?thesis using nf ne g eq r s1 s2 by auto
qed

lemma chunks_only_concat_Nil:
  "chunks_only r \<Longrightarrow> concat (map fst r) = [] \<Longrightarrow> r = []"
  by (cases r) (auto simp: chunks_only_def)


text \<open>With a complete line that fits at the head of what is left, \<open>Scan\<close> returns this line,
  whatever follows it.\<close>

lemma Scan_first_line:
  "scan_inv s \<Longrightarrow> scan_rest s = l @ after \<Longrightarrow> is_record newline l \<Longrightarrow>
   length l \<le> MaxScanTokenSize \<Longrightarrow>
     \<exists>s'. Scan s = (True, s') \<and> Text s' = line_text l \<and> scan_inv s' \<and> scan_rest s' = after
       \<and> s_err s' = s_err s"
proof (induction s rule: Scan.induct)
  case (1 s)
  note inv = "1.prems"(1) and rest = "1.prems"(2) and lrec = "1.prems"(3) and fit = "1.prems"(4)
  obtain found s1 where ts: "try_split s = (found, s1)" by (metis prod.exhaust)
  have in_l: "newline \<in> set l" using lrec by (auto simp: is_record_iff)
  show ?case
  proof (cases "IndexByte (s_data s) newline")
    case (Some i)
    note ib = IndexByte_Some[OF Some]
    have c: "length (s_data s) > 0 \<or> s_err s \<noteq> None" using ib by auto
    have sl: "ScanLines (s_data s) (s_err s \<noteq> None) = (i + 1, Some (dropCR (take i (s_data s))))"
      using Some ib by (auto simp: ScanLines_def)
    have f: "found" and s1: "s1 = s\<lparr>s_start := s_start s + (i + 1),
        s_data := drop (i + 1) (s_data s), s_token := Some (dropCR (take i (s_data s)))\<rparr>"
      using ts c sl by (auto simp: try_split_def)
    let ?l = "take i (s_data s) @ [newline]"
    have rec: "is_record newline ?l" using ib by (auto simp: is_record_iff)
    have split: "s_data s = ?l @ drop (i + 1) (s_data s)"
      using ib by (metis Suc_eq_plus1 append_take_drop_id)
    have "?l @ (drop (i + 1) (s_data s) @ concat (map fst (s_r s))) = l @ after"
      using rest split unfolding scan_rest_def by (metis append.assoc)
    then have eq: "?l = l" "drop (i + 1) (s_data s) @ concat (map fst (s_r s)) = after"
      using is_record_unique[OF rec lrec] by auto
    have t: "Text s1 = line_text l" using eq(1)[symmetric] s1 by (simp add: Text_def line_text_def)
    have i1: "scan_inv s1" using inv ib unfolding s1 scan_inv_def by auto
    have r1: "scan_rest s1 = after" using eq(2) unfolding s1 scan_rest_def by simp
    have e1: "s_err s1 = s_err s" unfolding s1 by simp
    have "Scan s = (True, s1)" using ts f by (simp add: Scan.simps[of s])
    then show ?thesis using t i1 r1 e1 by simp
  next
    case None
    then have nl: "newline \<notin> set (s_data s)" by (simp add: IndexByte_None)
    have r_ne: "s_r s \<noteq> []"
    proof
      assume "s_r s = []"
      then have "s_data s = l @ after" using rest by (simp add: scan_rest_def)
      then show False using nl in_l by simp
    qed
    then have err: "s_err s = None" using inv by (auto simp: scan_inv_def)
    have "s_data s @ concat (map fst (s_r s)) = l @ after" using rest by (simp add: scan_rest_def)
    then have "length (s_data s) < length l" by (rule prefix_of_record[OF lrec _ nl])
    then have short: "length (s_data s) < MaxScanTokenSize" using fit by simp
    obtain s2 where nf: "\<not> found" and ne: "\<not> s_err s1 \<noteq> None" and g: "grow (shift s1) = Inr s2"
      and eq: "Scan s = Scan (scan_read 101 s2)" and i3: "scan_inv (scan_read 101 s2)"
      and r3: "scan_rest (scan_read 101 s2) = scan_rest s"
      and e3: "s_err (scan_read 101 s2) = (if s_r s = [] then Some io_EOF else None)"
      using scan_step[OF inv err nl short ts] by blast
    have r3': "scan_rest (scan_read 101 s2) = l @ after" using r3 rest by simp
    have "\<exists>s'. Scan (scan_read 101 s2) = (True, s') \<and> Text s' = line_text l \<and> scan_inv s'
        \<and> scan_rest s' = after \<and> s_err s' = s_err (scan_read 101 s2)"
      by (rule "1.IH"[OF ts[symmetric] nf ne g i3 r3' lrec fit])
    then show ?thesis unfolding eq using e3 r_ne err by simp
  qed
qed

text \<open>With nothing left, \<open>Scan\<close> returns false and \<open>Err\<close> is nil.\<close>

lemma Scan_end_eof:
  assumes "s_err s = Some io_EOF" and "s_data s = []"
  shows "\<exists>s'. Scan s = (False, s') \<and> Err s' = None"
proof -
  have "try_split s = (False, s\<lparr>s_start := s_start s + 0, s_data := drop 0 (s_data s),
      s_token := None\<rparr>)"
    using assms by (simp add: try_split_def ScanLines_def)
  then have "Scan s = (False, s\<lparr>s_start := s_start s + 0, s_data := drop 0 (s_data s),
      s_token := None\<rparr>\<lparr>s_start := 0, s_data := []\<rparr>)"
    using assms by (simp add: Scan.simps[of s])
  then show ?thesis using assms by (simp add: Err_def)
qed

lemma Scan_end:
  assumes inv: "scan_inv s" and rest: "scan_rest s = []"
  shows "\<exists>s'. Scan s = (False, s') \<and> Err s' = None"
proof -
  have d: "s_data s = []" and "concat (map fst (s_r s)) = []"
    using rest by (simp_all add: scan_rest_def)
  then have r: "s_r s = []" using inv chunks_only_concat_Nil by (simp add: scan_inv_def)
  show ?thesis
  proof (cases "s_err s")
    case (Some e)
    then have "s_err s = Some io_EOF" using inv by (auto simp: scan_inv_def)
    then show ?thesis using d by (rule Scan_end_eof)
  next
    case None
    obtain found s1 where ts: "try_split s = (found, s1)" by (metis prod.exhaust)
    have nl: "newline \<notin> set (s_data s)" using d by simp
    have short: "length (s_data s) < MaxScanTokenSize" using d by (simp add: MaxScanTokenSize_def)
    obtain s2 where eq: "Scan s = Scan (scan_read 101 s2)"
      and r3: "scan_rest (scan_read 101 s2) = scan_rest s"
      and e3: "s_err (scan_read 101 s2) = (if s_r s = [] then Some io_EOF else None)"
      using scan_step[OF inv None nl short ts] by blast
    have "scan_rest (scan_read 101 s2) = []" using r3 rest by simp
    then have "s_data (scan_read 101 s2) = []" by (simp add: scan_rest_def)
    moreover have "s_err (scan_read 101 s2) = Some io_EOF" using e3 r by simp
    ultimately show ?thesis unfolding eq by (rule Scan_end_eof[rotated])
  qed
qed

text \<open>With only an unterminated line left, shorter than the maximal token size, \<open>Scan\<close>
  returns it at the end of the stream.\<close>

lemma Scan_last_line:
  "scan_inv s \<Longrightarrow> scan_rest s = fin \<Longrightarrow> fin \<noteq> [] \<Longrightarrow> newline \<notin> set fin \<Longrightarrow>
   length fin < MaxScanTokenSize \<Longrightarrow>
     \<exists>s'. Scan s = (True, s') \<and> Text s' = dropCR fin \<and> scan_inv s' \<and> scan_rest s' = []"
proof (induction s rule: Scan.induct)
  case (1 s)
  note inv = "1.prems"(1) and rest = "1.prems"(2) and ne = "1.prems"(3) and nlf = "1.prems"(4)
    and short = "1.prems"(5)
  obtain found s1 where ts: "try_split s = (found, s1)" by (metis prod.exhaust)
  have sub: "set (s_data s) \<subseteq> set fin" "length (s_data s) \<le> length fin"
    using rest by (auto simp: scan_rest_def)
  then have nl: "newline \<notin> set (s_data s)" using nlf by auto
  show ?case
  proof (cases "s_err s")
    case (Some e)
    then have eof: "s_err s = Some io_EOF" "s_r s = []" using inv by (auto simp: scan_inv_def)
    then have d: "s_data s = fin" using rest by (simp add: scan_rest_def)
    have sl: "ScanLines (s_data s) True = (length fin, Some (dropCR fin))"
      using d ne nl by (simp add: ScanLines_def IndexByte_notin)
    have f: "found" and s1: "s1 = s\<lparr>s_start := s_start s + length fin,
        s_data := drop (length fin) (s_data s), s_token := Some (dropCR fin)\<rparr>"
      using ts sl eof by (auto simp: try_split_def)
    have "Scan s = (True, s1)" using ts f by (simp add: Scan.simps[of s])
    moreover have "Text s1 = dropCR fin" unfolding s1 by (simp add: Text_def)
    moreover have "scan_inv s1" using inv d unfolding s1 scan_inv_def by auto
    moreover have "scan_rest s1 = []" using eof d unfolding s1 scan_rest_def by simp
    ultimately show ?thesis by simp
  next
    case None
    have sh: "length (s_data s) < MaxScanTokenSize" using sub short by simp
    obtain s2 where nf: "\<not> found" and ne1: "\<not> s_err s1 \<noteq> None" and g: "grow (shift s1) = Inr s2"
      and eq: "Scan s = Scan (scan_read 101 s2)" and i3: "scan_inv (scan_read 101 s2)"
      and r3: "scan_rest (scan_read 101 s2) = scan_rest s"
      using scan_step[OF inv None nl sh ts] by blast
    have r3': "scan_rest (scan_read 101 s2) = fin" using r3 rest by simp
    show ?thesis unfolding eq
      by (rule "1.IH"[OF ts[symmetric] nf ne1 g i3 r3' ne nlf short])
  qed
qed

text \<open>The loop routes the lines that fit, one after the other, and comes to what follows
  them.\<close>

lemma cmdReadErr_loop_prefix:
  "scan_inv s \<Longrightarrow> scan_rest s = concat ls @ after \<Longrightarrow> lines_fit ls \<Longrightarrow>
     \<exists>s'. cmdReadErr_loop s w
         = cmdReadErr_loop s' (foldl (\<lambda>w l. route_line (line_text l) w) w ls)
       \<and> scan_inv s' \<and> scan_rest s' = after \<and> s_err s' = s_err s"
proof (induction ls arbitrary: s w)
  case Nil
  then show ?case by auto
next
  case (Cons l ls)
  have l: "is_record newline l" "length l \<le> MaxScanTokenSize" and fit: "lines_fit ls"
    using Cons.prems(3) by (simp_all add: lines_fit_def)
  have rest: "scan_rest s = l @ (concat ls @ after)" using Cons.prems(2) by simp
  obtain s1 where s1: "Scan s = (True, s1)" "Text s1 = line_text l" "scan_inv s1"
    "scan_rest s1 = concat ls @ after" "s_err s1 = s_err s"
    using Scan_first_line[OF Cons.prems(1) rest l] by blast
  have step: "cmdReadErr_loop s w = cmdReadErr_loop s1 (route_line (line_text l) w)"
    using s1(1,2) by (simp add: cmdReadErr_loop.simps[of s w])
  obtain s' where "cmdReadErr_loop s1 (route_line (line_text l) w)
         = cmdReadErr_loop s' (foldl (\<lambda>w l. route_line (line_text l) w) (route_line (line_text l) w) ls)"
    "scan_inv s'" "scan_rest s' = after" "s_err s' = s_err s1"
    using Cons.IH[OF s1(3,4) fit, of "route_line (line_text l) w"] by blast
  then show ?case using step s1(5) by auto
qed

text \<open>A scan that starts inside a line with at least a maximal token size of bytes before
  its newline fails with \<open>ErrTooLong\<close>.\<close>

lemma Scan_too_long:
  "scan_inv s \<Longrightarrow> s_err s = None \<Longrightarrow> scan_rest s = pre @ tail \<Longrightarrow>
   newline \<notin> set pre \<Longrightarrow> MaxScanTokenSize \<le> length pre \<Longrightarrow>
     \<exists>s'. Scan s = (False, s') \<and> s_err s' = Some bufio_ErrTooLong"
proof (induction s rule: Scan.induct)
  case (1 s)
  note inv = "1.prems"(1) and err = "1.prems"(2) and rest = "1.prems"(3)
    and notin = "1.prems"(4) and long = "1.prems"(5)
  have len: "length (s_data s) \<le> MaxScanTokenSize" using inv by (simp add: scan_inv_def)
  have "s_data s @ concat (map fst (s_r s)) = pre @ tail" using rest by (simp add: scan_rest_def)
  then have "s_data s = take (length (s_data s)) pre"
    using len long by (metis append_eq_append_conv_if le_trans)
  then have "set (s_data s) \<subseteq> set pre" by (metis set_take_subset)
  then have dn: "newline \<notin> set (s_data s)" using notin by auto
  then have sl: "ScanLines (s_data s) False = (0, None)"
    by (simp add: ScanLines_def IndexByte_notin)
  obtain found s1 where ts: "try_split s = (found, s1)" by (metis prod.exhaust)
  have nf: "\<not> found" and s1: "s_data s1 = s_data s" "s_start s1 = s_start s" "s_r s1 = s_r s"
    "s_err s1 = None" "s_len s1 = s_len s" "s_maxTokenSize s1 = s_maxTokenSize s"
    using ts sl err by (auto simp: try_split_def split: if_splits)
  have inv1: "scan_inv s1" using inv s1 err by (simp add: scan_inv_def)
  let ?t = "shift s1"
  have it: "scan_inv ?t" using inv1 by (auto simp: scan_inv_def shift_def)
  have ne: "\<not> s_err s1 \<noteq> None" using s1 by simp
  show ?case
  proof (cases "grow ?t")
    case (Inl s2)
    then have "s2 = setErr bufio_ErrTooLong ?t"
      by (auto simp: grow_def Let_def split: if_splits)
    then have "s_err s2 = Some bufio_ErrTooLong" using s1 by (simp add: setErr_def)
    moreover have "Scan s = (False, s2)" using ts nf ne Inl by (simp add: Scan.simps[of s])
    ultimately show ?thesis by simp
  next
    case (Inr s2)
    have s2: "s_data s2 = s_data s1" "s_r s2 = s_r s1" "s_err s2 = None"
      "s_maxTokenSize s2 = s_maxTokenSize s1"
      using grow_Inr[OF Inr] s1 by auto
    have geom: "s_start s2 + length (s_data s2) < s_len s2 \<and> s_len s2 \<le> s_maxTokenSize s2"
    proof (cases "s_start ?t + length (s_data ?t) = s_len ?t")
      case False
      then have "s2 = ?t" using Inr by (simp add: grow_def)
      then show ?thesis using False it by (simp add: scan_inv_def)
    next
      case True
      then have lt: "s_len ?t < s_maxTokenSize ?t"
        and eq: "s2 = ?t\<lparr>s_len := min (if s_len ?t * 2 = 0 then startBufSize else s_len ?t * 2)
            (s_maxTokenSize ?t), s_start := 0\<rparr>"
        using Inr by (auto simp: grow_def Let_def split: if_splits)
      have st0: "s_start ?t = 0" using True by (auto simp: shift_def split: if_splits)
      have "s_maxTokenSize ?t = MaxScanTokenSize" using it by (simp add: scan_inv_def)
      then show ?thesis unfolding eq using lt True st0
        by (auto simp: startBufSize_def MaxScanTokenSize_def)
    qed
    have inv2: "scan_inv s2" using inv1 s2 geom by (simp add: scan_inv_def)
    have eq: "Scan s = Scan (scan_read 101 s2)"
      using ts nf ne Inr by (simp add: Scan.simps[of s])
    have "(101::nat) = Suc 100" by simp
    then have r: "scan_inv (scan_read 101 s2)" "scan_rest (scan_read 101 s2) = scan_rest s2"
      using scan_read_lines[OF inv2 s2(3) geom[THEN conjunct1], of 100]
      by (simp_all del: scan_read.simps)
    have rest2: "scan_rest (scan_read 101 s2) = pre @ tail"
      using r(2) rest s1 s2 by (simp add: scan_rest_def)
    have "s_r s2 \<noteq> []"
    proof
      assume "s_r s2 = []"
      then have "s_data s2 = pre @ tail" using rest s1 s2 by (simp add: scan_rest_def)
      then have "MaxScanTokenSize \<le> length (s_data s2)" using long by simp
      then show False using geom inv2 by (simp add: scan_inv_def)
    qed
    then obtain d e rs where rd: "s_r s2 = (d, e) # rs" by (cases "s_r s2") auto
    then have d: "d \<noteq> []" "e = None" using inv2 by (auto simp: scan_inv_def chunks_only_def)
    define k where "k = s_len s2 - (s_start s2 + length (s_data s2))"
    have k: "0 < k" using geom by (simp add: k_def)
    have "\<exists>d' r'. io_Read k (s_r s2) = ((d', None), r') \<and> d' \<noteq> []"
      using rd d k by (cases "length d \<le> k") auto
    then obtain d' r' where io: "io_Read k (s_r s2) = ((d', None), r')" "d' \<noteq> []" by blast
    have "scan_read 101 s2 = s2\<lparr>s_data := s_data s2 @ d', s_r := r'\<rparr>"
      using io by (simp add: k_def scan_read_numeral)
    then have e2: "s_err (scan_read 101 s2) = None"
      using s2(3) by simp
    show ?thesis unfolding eq
      by (rule "1.IH"[OF ts[symmetric] nf ne Inr r(1) e2 rest2 notin long])
  qed
qed

section \<open>The claims\<close>

text \<open>
  C1. Take any input made of complete newline-delimited records, delivered by the stream
  in any non-empty chunks, and any buffer size. \<open>cmdReadOut\<close> ends in the state reached by
  handling the records of the unsplit input one after the other: each record, with its
  trailing newline, is passed to the parser once and in order, and the metrics added to
  the accumulator are, one by one and in order, the metrics the parser produces from
  these records.
\<close>

theorem cmdReadOut_records:
  assumes "list_all (\<lambda>d. d \<noteq> []) chunks" and "complete newline (concat chunks)"
  shows "cmdReadOut e P p (chunked chunks) w
       = foldl (\<lambda>s r. parse_record P r s) (p, w) (split_after newline (concat chunks))
     \<and> list_all (is_record newline) (split_after newline (concat chunks))
     \<and> (\<exists>evs. events (snd (cmdReadOut e P p (chunked chunks) w)) = events w @ evs
          \<and> parsed evs = split_after newline (concat chunks)
          \<and> forwarded evs = parser_metrics P p (split_after newline (concat chunks)))"
  using cmdReadOut_chunked[OF assms, of e P p w] split_after_records[OF assms(2)]
    foldl_parse_events[of P p w "split_after newline (concat chunks)"]
  by simp

theorem cmdReadOut_records_witness:
  "list_all (\<lambda>d. d \<noteq> []) [''measurement value=1'' @ [newline] @ ''m v'', ''=2'' @ [newline]]
   \<and> complete newline (concat [''measurement value=1'' @ [newline] @ ''m v'', ''=2'' @ [newline]])
   \<and> cmdReadOut (new_Execd\<lparr>BufferSize := 16\<rparr>) ex_parser 0
        (chunked [''measurement value=1'' @ [newline] @ ''m v'', ''=2'' @ [newline]]) fresh_world
      = (2, \<lparr>events = [Parser_Parse (''measurement value=1'' @ [newline]),
                        AddMetric (''measurement value=1'' @ [newline]),
                        Parser_Parse (''m v=2'' @ [newline]),
                        AddMetric (''m v=2'' @ [newline])],
              once = False\<rparr>)"
proof -
  let ?chunks = "[''measurement value=1'' @ [newline] @ ''m v'', ''=2'' @ [newline]]"
  have h1: "list_all (\<lambda>d. d \<noteq> []) ?chunks" by simp
  have h2: "complete newline (concat ?chunks)" by (simp add: complete_def)
  have ev: "foldl (\<lambda>s r. parse_record ex_parser r s) (0, fresh_world)
       (split_after newline (concat ?chunks))
      = (2, \<lparr>events = [Parser_Parse (''measurement value=1'' @ [newline]),
                        AddMetric (''measurement value=1'' @ [newline]),
                        Parser_Parse (''m v=2'' @ [newline]),
                        AddMetric (''m v=2'' @ [newline])],
              once = False\<rparr>)"
    by code_simp
  show ?thesis
    using h1 h2 ev cmdReadOut_records[OF h1 h2, of "new_Execd\<lparr>BufferSize := 16\<rparr>" ex_parser 0 fresh_world]
    by simp
qed

text \<open>
  C2. Let the decoder first return results after which the loop of \<open>cmdReadOutStream\<close>
  goes on (\<open>pre\<close>), and then an error. If the error is, or wraps, the decoder's end of
  stream \<open>influx.EOF\<close>, the loop returns and reports nothing for it. If it is a parse error
  (of type \<open>*influx.ParseError\<close>), the parse error is added to the accumulator and the loop
  goes on with the next result. For any other error, the error is added to the
  accumulator, once, and the loop returns: the later results of the decoder (\<open>rest\<close>) are
  never asked for and leave no event.
\<close>

theorem cmdReadOutStream_errors:
  assumes "list_all goes_on pre"
  shows "(errors_Is err influx_EOF \<longrightarrow>
            cmdReadOutStream (pre @ Next_Err err # rest) w
              = (Returned, rest, w\<lparr>events := events w @ map stream_event pre\<rparr>))
       \<and> (\<not> errors_Is err influx_EOF \<and> errors_As_ParseError err = Some parseErr \<longrightarrow>
            cmdReadOutStream (pre @ Next_Err err # rest) w
              = cmdReadOutStream rest
                  (w\<lparr>events := events w @ map stream_event pre @ [AddError parseErr]\<rparr>))
       \<and> (\<not> errors_Is err influx_EOF \<and> errors_As_ParseError err = None \<longrightarrow>
            cmdReadOutStream (pre @ Next_Err err # rest) w
              = (Returned, rest, w\<lparr>events := events w @ map stream_event pre @ [AddError err]\<rparr>))"
  using cmdReadOutStream_goes_on[OF assms, of "Next_Err err # rest" w]
  by (simp add: emit_def)

theorem cmdReadOutStream_errors_witness:
  "list_all goes_on [Next_Metric ''m1'', Next_Err (Errorf ''line 2: '' (ParseError ''bad'')), Next_Metric ''m3'']
   \<and> cmdReadOutStream ([Next_Metric ''m1'', Next_Err (Errorf ''line 2: '' (ParseError ''bad'')), Next_Metric ''m3'']
        @ Next_Err influx_EOF # [Next_Metric ''m5'']) fresh_world
      = (Returned, [Next_Metric ''m5''],
         \<lparr>events = [AddMetric ''m1'', AddError (ParseError ''bad''), AddMetric ''m3''], once = False\<rparr>)
   \<and> cmdReadOutStream ([Next_Metric ''m1'', Next_Err (Errorf ''line 2: '' (ParseError ''bad'')), Next_Metric ''m3'']
        @ Next_Err (Errorf ''read: '' os_ErrClosed) # [Next_Metric ''m5'']) fresh_world
      = (Returned, [Next_Metric ''m5''],
         \<lparr>events = [AddMetric ''m1'', AddError (ParseError ''bad''), AddMetric ''m3'',
                    AddError (Errorf ''read: '' os_ErrClosed)], once = False\<rparr>)
   \<and> cmdReadOutStream ([Next_Metric ''m1'', Next_Err (Errorf ''line 2: '' (ParseError ''bad'')), Next_Metric ''m3'']
        @ Next_Err (ParseError ''worse'') # [Next_Metric ''m5'']) fresh_world
      = (In_Next, [],
         \<lparr>events = [AddMetric ''m1'', AddError (ParseError ''bad''), AddMetric ''m3'',
                    AddError (ParseError ''worse''), AddMetric ''m5''], once = False\<rparr>)"
proof -
  let ?pre = "[Next_Metric ''m1'', Next_Err (Errorf ''line 2: '' (ParseError ''bad'')), Next_Metric ''m3'']"
  have h: "list_all goes_on ?pre" by simp
  have r: "cmdReadOutStream [Next_Metric ''m5'']
      (fresh_world\<lparr>events := events fresh_world @ map stream_event ?pre @ [AddError (ParseError ''worse'')]\<rparr>)
      = (In_Next, [],
         \<lparr>events = [AddMetric ''m1'', AddError (ParseError ''bad''), AddMetric ''m3'',
                    AddError (ParseError ''worse''), AddMetric ''m5''], once = False\<rparr>)"
    by (simp add: fresh_world_def emit_def)
  show ?thesis
    using h r
      cmdReadOutStream_errors[OF h, of influx_EOF "[Next_Metric ''m5'']" fresh_world]
      cmdReadOutStream_errors[OF h, of "Errorf ''read: '' os_ErrClosed" "[Next_Metric ''m5'']" fresh_world]
      cmdReadOutStream_errors[OF h, of "ParseError ''worse''" "[Next_Metric ''m5'']" fresh_world "ParseError ''worse''"]
    by (simp add: fresh_world_def)
qed

text \<open>
  C3. Take any number of instances in one process, each with its own stream and parser,
  and any schedule of the iterations of their \<open>cmdReadOut\<close> loops over the shared world
  (\<open>sync.Once\<close> serialises the calls of \<open>Do\<close>, so an interleaving of the loops is a sequence
  of their steps). The standard-output readers log the notice of no metrics at most once
  more, and not at all if \<open>once\<close> has already run; \<open>once\<close>, when set, stays set. From the
  start of the process, the notice is logged at most once.
\<close>

theorem once_notice_at_most_once:
  "notices (snd (run_schedule sched insts w)) \<le> notices w + (if once w then 0 else 1)
   \<and> (once w \<longrightarrow> once (snd (run_schedule sched insts w)))
   \<and> notices (snd (run_schedule sched insts fresh_world)) \<le> 1"
proof -
  have f: "notices (fresh_world :: 'a world) = 0"
    by (simp add: notices_def fresh_world_def)
  have 1: "notices (snd (run_schedule sched insts w)) \<le> notices w + (if once w then 0 else 1)"
    using run_schedule_once[of w sched insts] by auto
  have 2: "once w \<longrightarrow> once (snd (run_schedule sched insts w))"
    using run_schedule_once[of w sched insts] by auto
  have 3: "notices (snd (run_schedule sched insts fresh_world)) \<le> 1"
    using run_schedule_once[of fresh_world sched insts] f by auto
  show ?thesis by (intro conjI 1 2 3)
qed

theorem once_notice_at_most_once_witness:
  "snd (run_schedule [0, 1, 1, 0, 0, 1, 1]
     [(ex_parser, Some (NewReaderSize (chunked [[newline], [newline]]) 16, 0)),
      (ex_parser, Some (NewReaderSize (chunked [''bad'' @ [newline] @ ''m'' @ [newline]]) 16, 0))]
     fresh_world)
   = \<lparr>events = [Parser_Parse [newline], Log_Debug NoMetricsCreatedMsg,
                 Parser_Parse (''bad'' @ [newline]),
                 AddError (Errorf ''parse error: '' (ParseError ''bad line'')),
                 Parser_Parse (''m'' @ [newline]), AddMetric (''m'' @ [newline]),
                 Parser_Parse [newline]],
       once = True\<rparr>
   \<and> notices (snd (run_schedule [0, 1, 1, 0, 0, 1, 1]
     [(ex_parser, Some (NewReaderSize (chunked [[newline], [newline]]) 16, 0)),
      (ex_parser, Some (NewReaderSize (chunked [''bad'' @ [newline] @ ''m'' @ [newline]]) 16, 0))]
     fresh_world)) \<le> 1"
proof -
  have ev: "snd (run_schedule [0, 1, 1, 0, 0, 1, 1]
     [(ex_parser, Some (NewReaderSize (chunked [[newline], [newline]]) 16, 0)),
      (ex_parser, Some (NewReaderSize (chunked [''bad'' @ [newline] @ ''m'' @ [newline]]) 16, 0))]
     fresh_world)
   = \<lparr>events = [Parser_Parse [newline], Log_Debug NoMetricsCreatedMsg,
                 Parser_Parse (''bad'' @ [newline]),
                 AddError (Errorf ''parse error: '' (ParseError ''bad line'')),
                 Parser_Parse (''m'' @ [newline]), AddMetric (''m'' @ [newline]),
                 Parser_Parse [newline]],
       once = True\<rparr>"
    by code_simp
  show ?thesis
    using ev once_notice_at_most_once[of "[0, 1, 1, 0, 0, 1, 1]"
     "[(ex_parser, Some (NewReaderSize (chunked [[newline], [newline]]) 16, 0)),
      (ex_parser, Some (NewReaderSize (chunked [''bad'' @ [newline] @ ''m'' @ [newline]]) 16, 0))]"
     fresh_world]
    by simp
qed

text \<open>
  C4. \<open>SetParser\<close> selects the streaming reader \<open>cmdReadOutStream\<close> exactly when the parser
  is a \<open>*models.RunningParser\<close> that wraps an \<open>*influx.Parser\<close>; for every other parser, a
  parser that is not wrapped in a \<open>*models.RunningParser\<close> included, it selects the batch
  reader \<open>cmdReadOut\<close>. The selection is made before \<open>Start\<close> and no later call of \<open>Init\<close>,
  \<open>Start\<close> or \<open>Stop\<close> changes it: after any run of such calls the instance holds the same
  reader, and the process \<open>Start\<close> created, if any, reads standard output with it.
\<close>
theorem SetParser_selects:
  assumes "process e = None"
    and "run_calls cs (SetParser e p) w = Some (e', w')"
  shows "(outputReader (SetParser e p) = Some fn_cmdReadOutStream
            \<longleftrightarrow> p = models_RunningParser influx_Parser)
       \<and> (outputReader (SetParser e p) = Some fn_cmdReadOut
            \<longleftrightarrow> p \<noteq> models_RunningParser influx_Parser)
       \<and> outputReader e' = outputReader (SetParser e p)
       \<and> (\<forall>pr. process e' = Some pr \<longrightarrow> ReadStdoutFn pr = outputReader (SetParser e p))"
proof -
  have inv: "\<forall>pr. process (SetParser e p) = Some pr \<longrightarrow> ReadStdoutFn pr = outputReader (SetParser e p)"
    using assms(1) by (simp add: SetParser_process)
  show ?thesis
    using run_calls_outputReader[OF assms(2) inv] by (simp add: SetParser_outputReader)
qed


theorem SetParser_selects_witness:
  "process new_Execd = None
   \<and> run_calls [Call_Init, Call_Start None None, Call_Stop]
        (SetParser (new_Execd\<lparr>Command := [''cmd'']\<rparr>) (models_RunningParser influx_Parser))
        (fresh_world :: string world)
      = Some (new_Execd\<lparr>Command := [''cmd''], parser := models_RunningParser influx_Parser,
                 outputReader := Some fn_cmdReadOutStream,
                 process := Some \<lparr>Cmd = [''cmd''], Env = [],
                   ReadStdoutFn = Some fn_cmdReadOutStream, ReadStderrFn = Some fn_cmdReadErr,
                   proc_RestartDelay = 10 * 1000000000, proc_StopOnError = False,
                   running = False\<rparr>\<rparr>, fresh_world)
   \<and> run_calls [Call_Init, Call_Start None None, Call_Stop]
        (SetParser (new_Execd\<lparr>Command := [''cmd'']\<rparr>) influx_Parser)
        (fresh_world :: string world)
      = Some (new_Execd\<lparr>Command := [''cmd''], parser := influx_Parser,
                 outputReader := Some fn_cmdReadOut,
                 process := Some \<lparr>Cmd = [''cmd''], Env = [],
                   ReadStdoutFn = Some fn_cmdReadOut, ReadStderrFn = Some fn_cmdReadErr,
                   proc_RestartDelay = 10 * 1000000000, proc_StopOnError = False,
                   running = False\<rparr>\<rparr>, fresh_world)
   \<and> outputReader (SetParser (new_Execd\<lparr>Command := [''cmd'']\<rparr>) (models_RunningParser influx_Parser))
      = Some fn_cmdReadOutStream
   \<and> outputReader (SetParser (new_Execd\<lparr>Command := [''cmd'']\<rparr>) influx_Parser)
      = Some fn_cmdReadOut"
proof -
  let ?e = "new_Execd\<lparr>Command := [''cmd'']\<rparr>"
  have h1: "process ?e = None" "process new_Execd = None" by code_simp+
  have h2: "run_calls [Call_Init, Call_Start None None, Call_Stop]
        (SetParser ?e (models_RunningParser influx_Parser)) (fresh_world :: string world)
      = Some (new_Execd\<lparr>Command := [''cmd''], parser := models_RunningParser influx_Parser,
                 outputReader := Some fn_cmdReadOutStream,
                 process := Some \<lparr>Cmd = [''cmd''], Env = [],
                   ReadStdoutFn = Some fn_cmdReadOutStream, ReadStderrFn = Some fn_cmdReadErr,
                   proc_RestartDelay = 10 * 1000000000, proc_StopOnError = False,
                   running = False\<rparr>\<rparr>, fresh_world)"
    by code_simp
  have h3: "run_calls [Call_Init, Call_Start None None, Call_Stop]
        (SetParser ?e influx_Parser) (fresh_world :: string world)
      = Some (new_Execd\<lparr>Command := [''cmd''], parser := influx_Parser,
                 outputReader := Some fn_cmdReadOut,
                 process := Some \<lparr>Cmd = [''cmd''], Env = [],
                   ReadStdoutFn = Some fn_cmdReadOut, ReadStderrFn = Some fn_cmdReadErr,
                   proc_RestartDelay = 10 * 1000000000, proc_StopOnError = False,
                   running = False\<rparr>\<rparr>, fresh_world)"
    by code_simp
  have a: "outputReader (SetParser ?e (models_RunningParser influx_Parser)) = Some fn_cmdReadOutStream"
    using SetParser_selects[OF h1(1) h2, THEN conjunct1] by simp
  have b: "outputReader (SetParser ?e influx_Parser) = Some fn_cmdReadOut"
    using SetParser_selects[OF h1(1) h3, THEN conjunct2, THEN conjunct1] by simp
  show ?thesis by (intro conjI h1(2) h2 h3 a b)
qed

text \<open>
  C5. For every line the scanner hands to the loop of \<open>cmdReadErr\<close>, the loop routes the line
  and scans on. A line that begins with \<open>E! \<close>, \<open>W! \<close>, \<open>I! \<close>, \<open>D! \<close> or \<open>T! \<close> goes to \<open>Error\<close>,
  \<open>Warn\<close>, \<open>Info\<close>, \<open>Debug\<close> or \<open>Trace\<close> without these three bytes. Any other line goes to
  \<open>Errorf\<close> with the format \<open>stderr: %q\<close> and the whole line, which for a line of printable
  ASCII without quote or backslash reads \<open>stderr: \<close> and the line between double quotes.
  So \<open>W! disk full\<close> goes to \<open>Warn\<close> as \<open>disk full\<close>, and \<open>custom text\<close> goes to the error level
  as \<open>stderr: "custom text"\<close>.
\<close>
theorem cmdReadErr_routes:
  assumes "Scan scanner = (True, scanner')"
  shows "cmdReadErr_loop scanner w = cmdReadErr_loop scanner' (route_line (Text scanner') w)
     \<and> route_line (''E! '' @ rest) w' = emit (Log_Error rest) w'
     \<and> route_line (''W! '' @ rest) w' = emit (Log_Warn rest) w'
     \<and> route_line (''I! '' @ rest) w' = emit (Log_Info rest) w'
     \<and> route_line (''D! '' @ rest) w' = emit (Log_Debug rest) w'
     \<and> route_line (''T! '' @ rest) w' = emit (Log_Trace rest) w'
     \<and> (\<not> HasPrefix msg ''E! '' \<and> \<not> HasPrefix msg ''W! '' \<and> \<not> HasPrefix msg ''I! ''
          \<and> \<not> HasPrefix msg ''D! '' \<and> \<not> HasPrefix msg ''T! ''
          \<longrightarrow> route_line msg w' = emit (Log_Errorf ''stderr: %q'' msg) w')
     \<and> (list_all (\<lambda>c. 32 \<le> (of_char c :: nat) \<and> (of_char c :: nat) \<le> 126
                      \<and> c \<noteq> CHR 0x22 \<and> c \<noteq> CHR 0x5C) msg
          \<longrightarrow> Sprintf_q ''stderr: %q'' msg = Some (''stderr: '' @ [CHR 0x22] @ msg @ [CHR 0x22]))"
proof -
  have 1: "cmdReadErr_loop scanner w = cmdReadErr_loop scanner' (route_line (Text scanner') w)"
    using assms by (simp add: cmdReadErr_loop.simps[of scanner w])
  have 2: "route_line (''E! '' @ rest) w' = emit (Log_Error rest) w'"
    by (simp add: route_line_def HasPrefix_def)
  have 3: "route_line (''W! '' @ rest) w' = emit (Log_Warn rest) w'"
    by (simp add: route_line_def HasPrefix_def)
  have 4: "route_line (''I! '' @ rest) w' = emit (Log_Info rest) w'"
    by (simp add: route_line_def HasPrefix_def)
  have 5: "route_line (''D! '' @ rest) w' = emit (Log_Debug rest) w'"
    by (simp add: route_line_def HasPrefix_def)
  have 6: "route_line (''T! '' @ rest) w' = emit (Log_Trace rest) w'"
    by (simp add: route_line_def HasPrefix_def)
  have 7: "\<not> HasPrefix msg ''E! '' \<and> \<not> HasPrefix msg ''W! '' \<and> \<not> HasPrefix msg ''I! ''
          \<and> \<not> HasPrefix msg ''D! '' \<and> \<not> HasPrefix msg ''T! ''
          \<longrightarrow> route_line msg w' = emit (Log_Errorf ''stderr: %q'' msg) w'"
    by (simp add: route_line_def)
  have q: "concat (map quote_byte m) = m"
    if "list_all (\<lambda>c. 32 \<le> (of_char c :: nat) \<and> (of_char c :: nat) \<le> 126
                      \<and> c \<noteq> CHR 0x22 \<and> c \<noteq> CHR 0x5C) m" for m
    using that by (induction m) (auto simp: quote_byte_def)
  have a: "list_all (\<lambda>c. (of_char c :: nat) < 128) m"
    if "list_all (\<lambda>c. 32 \<le> (of_char c :: nat) \<and> (of_char c :: nat) \<le> 126
                      \<and> c \<noteq> CHR 0x22 \<and> c \<noteq> CHR 0x5C) m" for m
    using that by (induction m) auto
  have 8: "list_all (\<lambda>c. 32 \<le> (of_char c :: nat) \<and> (of_char c :: nat) \<le> 126
                      \<and> c \<noteq> CHR 0x22 \<and> c \<noteq> CHR 0x5C) msg
          \<longrightarrow> Sprintf_q ''stderr: %q'' msg = Some (''stderr: '' @ [CHR 0x22] @ msg @ [CHR 0x22])"
    using q[of msg] a[of msg] by (simp add: strconv_Quote_def)
  show ?thesis by (intro conjI 1 2 3 4 5 6 7 8)
qed

theorem cmdReadErr_routes_witness:
  "Scan (NewScanner (chunked [''W! disk full'' @ [newline] @ ''custom text'' @ [newline]]))
     = (True, \<lparr>s_r = [], s_data = ''custom text'' @ [newline], s_start = 13, s_len = 4096,
               s_maxTokenSize = 65536, s_token = Some ''W! disk full'', s_err = None\<rparr>)
   \<and> Scan \<lparr>s_r = [], s_data = ''custom text'' @ [newline], s_start = 13, s_len = 4096,
               s_maxTokenSize = 65536, s_token = Some ''W! disk full'', s_err = None\<rparr>
     = (True, \<lparr>s_r = [], s_data = [], s_start = 25, s_len = 4096,
               s_maxTokenSize = 65536, s_token = Some ''custom text'', s_err = None\<rparr>)
   \<and> cmdReadErr_loop (NewScanner (chunked [''W! disk full'' @ [newline] @ ''custom text'' @ [newline]]))
        (fresh_world :: string world)
     = cmdReadErr_loop \<lparr>s_r = [], s_data = ''custom text'' @ [newline], s_start = 13, s_len = 4096,
               s_maxTokenSize = 65536, s_token = Some ''W! disk full'', s_err = None\<rparr>
         (emit (Log_Warn ''disk full'') fresh_world)
   \<and> cmdReadErr_loop \<lparr>s_r = [], s_data = ''custom text'' @ [newline], s_start = 13, s_len = 4096,
               s_maxTokenSize = 65536, s_token = Some ''W! disk full'', s_err = None\<rparr>
         (emit (Log_Warn ''disk full'') (fresh_world :: string world))
     = cmdReadErr_loop \<lparr>s_r = [], s_data = [], s_start = 25, s_len = 4096,
               s_maxTokenSize = 65536, s_token = Some ''custom text'', s_err = None\<rparr>
         (emit (Log_Errorf ''stderr: %q'' ''custom text'') (emit (Log_Warn ''disk full'') fresh_world))
   \<and> Sprintf_q ''stderr: %q'' ''custom text''
     = Some (''stderr: '' @ [CHR 0x22] @ ''custom text'' @ [CHR 0x22])
   \<and> cmdReadErr (chunked [''W! disk full'' @ [newline] @ ''custom text'' @ [newline]])
        (fresh_world :: string world)
     = \<lparr>events = [Log_Warn ''disk full'', Log_Errorf ''stderr: %q'' ''custom text''], once = False\<rparr>"
proof -
  let ?S0 = "NewScanner (chunked [''W! disk full'' @ [newline] @ ''custom text'' @ [newline]])"
  let ?S1 = "\<lparr>s_r = [], s_data = ''custom text'' @ [newline], s_start = 13, s_len = 4096,
               s_maxTokenSize = 65536, s_token = Some ''W! disk full'', s_err = None\<rparr>"
  let ?S2 = "\<lparr>s_r = [], s_data = [], s_start = 25, s_len = 4096,
               s_maxTokenSize = 65536, s_token = Some ''custom text'', s_err = None\<rparr>"
  let ?w1 = "emit (Log_Warn ''disk full'') (fresh_world :: string world)"
  have s1: "Scan ?S0 = (True, ?S1)" by (simp add: scan_eval split del: if_split)
  have t1: "Text ?S1 = ''W! disk full''" by (simp add: Text_def)
  have s2: "Scan ?S1 = (True, ?S2)" by (simp add: scan_eval split del: if_split)
  have t2: "Text ?S2 = ''custom text''" by (simp add: Text_def)
  note a = cmdReadErr_routes[OF s1, where w = "fresh_world :: string world"
      and w' = "fresh_world :: string world"
      and rest = "''disk full''" and msg = "''custom text''"]
  note b = cmdReadErr_routes[OF s2, where w = ?w1 and w' = ?w1
      and rest = "''disk full''" and msg = "''custom text''"]
  have r1: "route_line ''W! disk full'' (fresh_world :: string world) = ?w1"
    using a[THEN conjunct2, THEN conjunct2, THEN conjunct1] by simp
  have l1: "cmdReadErr_loop ?S0 (fresh_world :: string world) = cmdReadErr_loop ?S1 ?w1"
    using a[THEN conjunct1] t1 r1 by simp
  have np: "\<not> HasPrefix ''custom text'' ''E! '' \<and> \<not> HasPrefix ''custom text'' ''W! ''
      \<and> \<not> HasPrefix ''custom text'' ''I! '' \<and> \<not> HasPrefix ''custom text'' ''D! ''
      \<and> \<not> HasPrefix ''custom text'' ''T! ''"
    by (simp add: HasPrefix_def)
  have r2: "route_line ''custom text'' ?w1 = emit (Log_Errorf ''stderr: %q'' ''custom text'') ?w1"
    using b[THEN conjunct2, THEN conjunct2, THEN conjunct2, THEN conjunct2, THEN conjunct2,
        THEN conjunct2, THEN conjunct1] np by blast
  have l2: "cmdReadErr_loop ?S1 ?w1
      = cmdReadErr_loop ?S2 (emit (Log_Errorf ''stderr: %q'' ''custom text'') ?w1)"
    using b[THEN conjunct1] t2 r2 by simp
  have q: "Sprintf_q ''stderr: %q'' ''custom text''
     = Some (''stderr: '' @ [CHR 0x22] @ ''custom text'' @ [CHR 0x22])"
    using b[THEN conjunct2, THEN conjunct2, THEN conjunct2, THEN conjunct2, THEN conjunct2,
        THEN conjunct2, THEN conjunct2] by simp
  have r: "cmdReadErr (chunked [''W! disk full'' @ [newline] @ ''custom text'' @ [newline]])
        (fresh_world :: string world)
     = \<lparr>events = [Log_Warn ''disk full'', Log_Errorf ''stderr: %q'' ''custom text''], once = False\<rparr>"
    by (simp add: scan_eval cmdReadErr_eval split del: if_split)
  show ?thesis by (intro conjI s1 s2 l1 l2 q r)
qed

text \<open>
  C6. When \<open>ReadBytes\<close> returns an error in the loop of \<open>cmdReadOut\<close>: if the error is, or
  wraps, \<open>io.EOF\<close> or \<open>os.ErrClosed\<close>, the loop returns at once and the world is unchanged
  (no error is reported); for any other error the loop adds the error, wrapped, to the
  accumulator and goes on with the next iteration, so that this report is followed by
  whatever the rest of the run does.
\<close>

theorem cmdReadOut_read_error:
  assumes "ReadBytes rdr newline = (data, Some err, rdr')"
  shows "(errors_Is err io_EOF \<or> errors_Is err os_ErrClosed \<longrightarrow>
            cmdReadOut_loop P (rdr, p) w = (p, w))
       \<and> (\<not> (errors_Is err io_EOF \<or> errors_Is err os_ErrClosed) \<longrightarrow>
            cmdReadOut_loop P (rdr, p) w
              = cmdReadOut_loop P (rdr', p) (emit (AddError (Errorf ''error reading stdout: '' err)) w)
            \<and> (\<exists>evs. events (snd (cmdReadOut_loop P (rdr, p) w))
                  = events w @ AddError (Errorf ''error reading stdout: '' err) # evs))"
proof (cases "errors_Is err io_EOF \<or> errors_Is err os_ErrClosed")
  case True
  then have "cmdReadOut_iter P (rdr, p) w = (None, w)"
    using assms by (simp add: cmdReadOut_iter_def)
  then show ?thesis using True by (simp add: cmdReadOut_loop.simps[of P "(rdr, p)" w])
next
  case False
  let ?w = "emit (AddError (Errorf ''error reading stdout: '' err)) w"
  have "cmdReadOut_iter P (rdr, p) w = (Some (rdr', p), ?w)"
    using assms False by (simp add: cmdReadOut_iter_def)
  then have eq: "cmdReadOut_loop P (rdr, p) w = cmdReadOut_loop P (rdr', p) ?w"
    by (simp add: cmdReadOut_loop.simps[of P "(rdr, p)" w])
  obtain evs where "events (snd (cmdReadOut_loop P (rdr', p) ?w)) = events ?w @ evs"
    using cmdReadOut_loop_events by blast
  then show ?thesis using eq False by simp
qed

theorem cmdReadOut_read_error_witness:
  "ReadBytes (NewReaderSize [(''ab'', Some (ErrorNew ''io'')), (''c'' @ [newline], None)] 16) newline
     = (''ab'', Some (ErrorNew ''io''),
        \<lparr>b_rd = [(''c'' @ [newline], None)], b_buf = [], b_size = 16, b_err = None\<rparr>)
   \<and> \<not> (errors_Is (ErrorNew ''io'') io_EOF \<or> errors_Is (ErrorNew ''io'') os_ErrClosed)
   \<and> cmdReadOut_loop ex_parser
        (NewReaderSize [(''ab'', Some (ErrorNew ''io'')), (''c'' @ [newline], None)] 16, 0) fresh_world
     = (1, \<lparr>events = [AddError (Errorf ''error reading stdout: '' (ErrorNew ''io'')),
                       Parser_Parse (''c'' @ [newline]), AddMetric (''c'' @ [newline])],
             once = False\<rparr>)
   \<and> ReadBytes (NewReaderSize [(''ab'', Some (Errorf ''read |0: '' os_ErrClosed)), (''c'' @ [newline], None)] 16) newline
     = (''ab'', Some (Errorf ''read |0: '' os_ErrClosed),
        \<lparr>b_rd = [(''c'' @ [newline], None)], b_buf = [], b_size = 16, b_err = None\<rparr>)
   \<and> cmdReadOut_loop ex_parser
        (NewReaderSize [(''ab'', Some (Errorf ''read |0: '' os_ErrClosed)), (''c'' @ [newline], None)] 16, 0)
        fresh_world
     = (0, fresh_world)"
proof -
  let ?r1 = "\<lparr>b_rd = [(''c'' @ [newline], None)], b_buf = [], b_size = 16, b_err = None\<rparr>"
  have h: "ReadBytes (NewReaderSize [(''ab'', Some (ErrorNew ''io'')), (''c'' @ [newline], None)] 16) newline
     = (''ab'', Some (ErrorNew ''io''), ?r1)"
    by code_simp
  have h': "ReadBytes (NewReaderSize [(''ab'', Some (Errorf ''read |0: '' os_ErrClosed)), (''c'' @ [newline], None)] 16) newline
     = (''ab'', Some (Errorf ''read |0: '' os_ErrClosed), ?r1)"
    by code_simp
  have ev: "cmdReadOut_loop ex_parser (?r1, 0)
       (emit (AddError (Errorf ''error reading stdout: '' (ErrorNew ''io''))) fresh_world)
     = (1, \<lparr>events = [AddError (Errorf ''error reading stdout: '' (ErrorNew ''io'')),
                       Parser_Parse (''c'' @ [newline]), AddMetric (''c'' @ [newline])],
             once = False\<rparr>)"
    by code_simp
  show ?thesis
    using h h' ev cmdReadOut_read_error[OF h, of ex_parser 0 fresh_world]
      cmdReadOut_read_error[OF h', of ex_parser 0 fresh_world]
    by simp
qed

text \<open>
  C7. Take an input of complete records, delivered in any non-empty chunks, in which the
  parser returns an error on one record (\<open>bad\<close>). The error is added, wrapped, to the
  accumulator right after the call of the parser on that record, and the loop goes on:
  every record after it is passed to the parser, in order, and the metrics forwarded
  from there on are those of the malformed record's own result followed by all the
  metrics the parser produces from the later records.
\<close>

theorem cmdReadOut_malformed_record:
  assumes "list_all (\<lambda>d. d \<noteq> []) chunks"
    and "concat chunks = concat (pre @ bad # post)"
    and "list_all (is_record newline) (pre @ bad # post)"
    and "foldl (\<lambda>s r. parse_record P r s) (p, w) pre = (p1, w1)"
    and "P p1 bad = ((ms, Some err), p2)"
  shows "\<exists>evs. events (snd (cmdReadOut e P p (chunked chunks) w))
        = events w1 @ Parser_Parse bad # AddError (Errorf ''parse error: '' err) # evs
     \<and> parsed evs = post
     \<and> forwarded evs = ms @ parser_metrics P p2 post"
proof -
  let ?recs = "pre @ bad # post"
  let ?b = "NewReaderSize (chunked chunks) (BufferSize e)"
  have "chunks_only (chunked chunks)" using assms(1)
    by (induction chunks) (auto simp: chunks_only_def chunked_def)
  then have c: "clean ?b" by (simp add: clean_def NewReaderSize_def)
  have "concat (map fst (chunked chunks)) = concat chunks"
    by (simp add: chunked_def comp_def)
  then have r: "rest_of ?b = concat ?recs"
    using assms(2) by (simp add: rest_of_def NewReaderSize_def)
  have run: "cmdReadOut e P p (chunked chunks) w = foldl (\<lambda>s r. parse_record P r s) (p, w) ?recs"
    unfolding cmdReadOut_def by (rule loop_records[OF c r assms(3)])
  let ?w2 = "forward_result (ms, Some err) (emit (Parser_Parse bad) w1)"
  have bad: "parse_record P bad (p1, w1) = (p2, ?w2)"
    using assms(5) by (simp add: parse_record_def)
  have run2: "cmdReadOut e P p (chunked chunks) w = foldl (\<lambda>s r. parse_record P r s) (p2, ?w2) post"
    unfolding run foldl_parse_append assms(4) bad ..
  obtain evs2 where 2: "events (snd (foldl (\<lambda>s r. parse_record P r s) (p2, ?w2) post)) = events ?w2 @ evs2"
    "parsed evs2 = post" "forwarded evs2 = parser_metrics P p2 post"
    using foldl_parse_events[of P p2 ?w2 post] by blast
  let ?evs1 = "(if ms = [] \<and> \<not> once w1 then [Log_Debug NoMetricsCreatedMsg] else []) @ map AddMetric ms"
  have 1: "events ?w2 = events w1 @ Parser_Parse bad # AddError (Errorf ''parse error: '' err) # ?evs1"
    by (simp add: events_forward_result)
  have "events (snd (cmdReadOut e P p (chunked chunks) w))
        = events w1 @ Parser_Parse bad # AddError (Errorf ''parse error: '' err) # (?evs1 @ evs2)"
    unfolding run2 2(1) 1 by simp
  moreover have "parsed (?evs1 @ evs2) = post" using 2(2) by simp
  moreover have "forwarded (?evs1 @ evs2) = ms @ parser_metrics P p2 post" using 2(3) by simp
  ultimately show ?thesis by blast
qed

theorem cmdReadOut_malformed_record_witness:
  "list_all (\<lambda>d. d \<noteq> []) [''a'' @ [newline] @ ''ba'', ''d'' @ [newline] @ ''b'' @ [newline] @ ''c'', [newline]]
   \<and> concat [''a'' @ [newline] @ ''ba'', ''d'' @ [newline] @ ''b'' @ [newline] @ ''c'', [newline]]
       = concat ([''a'' @ [newline]] @ (''bad'' @ [newline]) # [''b'' @ [newline], ''c'' @ [newline]])
   \<and> list_all (is_record newline)
        ([''a'' @ [newline]] @ (''bad'' @ [newline]) # [''b'' @ [newline], ''c'' @ [newline]])
   \<and> foldl (\<lambda>s r. parse_record ex_parser r s) (0, fresh_world) [''a'' @ [newline]]
       = (1, \<lparr>events = [Parser_Parse (''a'' @ [newline]), AddMetric (''a'' @ [newline])], once = False\<rparr>)
   \<and> ex_parser 1 (''bad'' @ [newline]) = (([], Some (ParseError ''bad line'')), 2)
   \<and> (\<exists>evs. events (snd (cmdReadOut new_Execd ex_parser 0
          (chunked [''a'' @ [newline] @ ''ba'', ''d'' @ [newline] @ ''b'' @ [newline] @ ''c'', [newline]])
          fresh_world))
        = [Parser_Parse (''a'' @ [newline]), AddMetric (''a'' @ [newline]),
           Parser_Parse (''bad'' @ [newline]),
           AddError (Errorf ''parse error: '' (ParseError ''bad line''))] @ evs
      \<and> parsed evs = [''b'' @ [newline], ''c'' @ [newline]]
      \<and> forwarded evs = [''b'' @ [newline], ''c'' @ [newline]])"
proof -
  let ?chunks = "[''a'' @ [newline] @ ''ba'', ''d'' @ [newline] @ ''b'' @ [newline] @ ''c'', [newline]]"
  let ?w1 = "\<lparr>events = [Parser_Parse (''a'' @ [newline]), AddMetric (''a'' @ [newline])], once = False\<rparr>"
  have h1: "list_all (\<lambda>d. d \<noteq> []) ?chunks" by simp
  have h2: "concat ?chunks
       = concat ([''a'' @ [newline]] @ (''bad'' @ [newline]) # [''b'' @ [newline], ''c'' @ [newline]])"
    by simp
  have h3: "list_all (is_record newline)
        ([''a'' @ [newline]] @ (''bad'' @ [newline]) # [''b'' @ [newline], ''c'' @ [newline]])"
    by (simp add: is_record_def newline_def)
  have h4: "foldl (\<lambda>s r. parse_record ex_parser r s) (0, fresh_world) [''a'' @ [newline]]
       = (1, ?w1)"
    by code_simp
  have h5: "ex_parser 1 (''bad'' @ [newline]) = (([], Some (ParseError ''bad line'')), 2)"
    by code_simp
  have pm: "parser_metrics ex_parser 2 [''b'' @ [newline], ''c'' @ [newline]]
      = [''b'' @ [newline], ''c'' @ [newline]]"
    by code_simp
  have c: "\<exists>evs. events (snd (cmdReadOut new_Execd ex_parser 0 (chunked ?chunks) fresh_world))
        = [Parser_Parse (''a'' @ [newline]), AddMetric (''a'' @ [newline]),
           Parser_Parse (''bad'' @ [newline]),
           AddError (Errorf ''parse error: '' (ParseError ''bad line''))] @ evs
      \<and> parsed evs = [''b'' @ [newline], ''c'' @ [newline]]
      \<and> forwarded evs = [''b'' @ [newline], ''c'' @ [newline]]"
    using cmdReadOut_malformed_record[where P = ex_parser and e = new_Execd, OF h1 h2 h3 h4 h5] pm
    by simp
  show ?thesis by (intro conjI h1 h2 h3 h4 h5 c)
qed

text \<open>
  C8, as the code has it. The loop of \<open>cmdReadErr\<close> handles one line per iteration, and the
  scanning is bounded by the maximal token size of \<open>bufio.NewScanner\<close>, 65536 bytes. Take
  an input delivered in any non-empty chunks, made of complete lines of at most 65536
  bytes each, newline included (\<open>ls\<close>), and of what follows them (\<open>after\<close>). The lines of
  \<open>ls\<close> are routed, each as one line and in order. If nothing follows, that is all. If an
  unterminated last line of fewer than 65536 bytes follows, it is routed too, at the end
  of the stream. If what follows begins with 65536 bytes or more without a newline, the
  scanner fails there with \<open>bufio.ErrTooLong\<close>: this line and everything after it is never
  routed, and the error is reported. In general a scan that returns false ends the loop;
  if the scanner then holds an error, which is never \<open>io.EOF\<close>, \<open>cmdReadErr\<close> adds it,
  wrapped, to the accumulator as its last call.
\<close>

theorem cmdReadErr_lines_bounded:
  assumes "list_all (\<lambda>d. d \<noteq> []) chunks" and "concat chunks = concat ls @ after"
    and "lines_fit ls"
  shows "(after = [] \<longrightarrow>
            cmdReadErr (chunked chunks) w = foldl (\<lambda>w l. route_line (line_text l) w) w ls)
     \<and> (after \<noteq> [] \<and> newline \<notin> set after \<and> length after < MaxScanTokenSize \<longrightarrow>
            cmdReadErr (chunked chunks) w
              = route_line (dropCR after) (foldl (\<lambda>w l. route_line (line_text l) w) w ls))
     \<and> (after = pre @ tail \<and> newline \<notin> set pre \<and> MaxScanTokenSize \<le> length pre \<longrightarrow>
            cmdReadErr (chunked chunks) w
              = emit (AddError (Errorf ''error reading stderr: '' bufio_ErrTooLong))
                  (foldl (\<lambda>w l. route_line (line_text l) w) w ls))
     \<and> (Scan scanner = (False, scanner') \<longrightarrow> cmdReadErr_loop scanner w1 = (scanner', w1))
     \<and> (cmdReadErr_loop (NewScanner out) w0 = (sc, w') \<longrightarrow>
          (\<forall>err. Err sc = Some err \<longrightarrow> err \<noteq> io_EOF
             \<and> cmdReadErr out w0 = emit (AddError (Errorf ''error reading stderr: '' err)) w')
          \<and> (Err sc = None \<longrightarrow> cmdReadErr out w0 = w'))"
proof -
  let ?s = "NewScanner (chunked chunks)"
  let ?w = "foldl (\<lambda>w l. route_line (line_text l) w) w ls"
  have "chunks_only (chunked chunks)" using assms(1)
    by (induction chunks) (auto simp: chunks_only_def chunked_def)
  then have inv: "scan_inv ?s" by (simp add: scan_inv_def NewScanner_def)
  have "concat (map fst (chunked chunks)) = concat chunks"
    by (simp add: chunked_def comp_def)
  then have rest: "scan_rest ?s = concat ls @ after"
    using assms(2) by (simp add: scan_rest_def NewScanner_def)
  obtain s' where s': "cmdReadErr_loop ?s w = cmdReadErr_loop s' ?w" "scan_inv s'"
    "scan_rest s' = after" "s_err s' = s_err ?s"
    using cmdReadErr_loop_prefix[OF inv rest assms(3)] by blast
  have e': "s_err s' = None" using s'(4) by (simp add: NewScanner_def)
  have 1: "cmdReadErr (chunked chunks) w = ?w" if "after = []"
  proof -
    have "scan_rest s' = []" using s'(3) that by simp
    then obtain s2 where "Scan s' = (False, s2)" "Err s2 = None"
      using Scan_end[OF s'(2)] by blast
    then have "cmdReadErr_loop s' ?w = (s2, ?w)" "Err s2 = None"
      by (simp_all add: cmdReadErr_loop.simps[of s' ?w])
    then show ?thesis using s'(1) by (simp add: cmdReadErr_def)
  qed
  have 2: "cmdReadErr (chunked chunks) w = route_line (dropCR after) ?w"
    if h: "after \<noteq> []" "newline \<notin> set after" "length after < MaxScanTokenSize"
  proof -
    obtain s1 where s1: "Scan s' = (True, s1)" "Text s1 = dropCR after" "scan_inv s1"
      "scan_rest s1 = []"
      using Scan_last_line[OF s'(2,3) h] by blast
    obtain s2 where s2: "Scan s1 = (False, s2)" "Err s2 = None"
      using Scan_end[OF s1(3,4)] by blast
    have "cmdReadErr_loop s' ?w = cmdReadErr_loop s1 (route_line (dropCR after) ?w)"
      using s1(1,2) by (simp add: cmdReadErr_loop.simps[of s' ?w])
    also have "\<dots> = (s2, route_line (dropCR after) ?w)"
      using s2(1) by (simp add: cmdReadErr_loop.simps[of s1])
    finally show ?thesis using s'(1) s2(2) by (simp add: cmdReadErr_def)
  qed
  have 3: "cmdReadErr (chunked chunks) w
      = emit (AddError (Errorf ''error reading stderr: '' bufio_ErrTooLong)) ?w"
    if h: "after = pre @ tail" "newline \<notin> set pre" "MaxScanTokenSize \<le> length pre"
  proof -
    have r: "scan_rest s' = pre @ tail" using s'(3) h(1) by simp
    obtain s2 where s2: "Scan s' = (False, s2)" "s_err s2 = Some bufio_ErrTooLong"
      using Scan_too_long[OF s'(2) e' r h(2,3)] by blast
    then have "cmdReadErr_loop s' ?w = (s2, ?w)"
      by (simp add: cmdReadErr_loop.simps[of s' ?w])
    then show ?thesis using s'(1) s2(2) by (simp add: cmdReadErr_def Err_def)
  qed
  have 4: "Scan scanner = (False, scanner') \<longrightarrow> cmdReadErr_loop scanner w1 = (scanner', w1)"
    by (simp add: cmdReadErr_loop.simps[of scanner w1])
  have 5: "cmdReadErr_loop (NewScanner out) w0 = (sc, w') \<longrightarrow>
          (\<forall>err. Err sc = Some err \<longrightarrow> err \<noteq> io_EOF
             \<and> cmdReadErr out w0 = emit (AddError (Errorf ''error reading stderr: '' err)) w')
          \<and> (Err sc = None \<longrightarrow> cmdReadErr out w0 = w')"
    by (auto simp: cmdReadErr_def Err_def split: if_splits)
  show ?thesis using 1 2 3 by (intro conjI 4 5) blast+
qed

theorem cmdReadErr_lines_bounded_witness:
  "list_all (\<lambda>d. d \<noteq> [])
     [''W! disk full'' @ [newline] @ ''cust'', ''om text'' @ [CHR 0x0D, newline] @ ''D! tail'']
   \<and> concat [''W! disk full'' @ [newline] @ ''cust'', ''om text'' @ [CHR 0x0D, newline] @ ''D! tail'']
       = concat [''W! disk full'' @ [newline], ''custom text'' @ [CHR 0x0D, newline]] @ ''D! tail''
   \<and> lines_fit [''W! disk full'' @ [newline], ''custom text'' @ [CHR 0x0D, newline]]
   \<and> cmdReadErr (chunked
         [''W! disk full'' @ [newline] @ ''cust'', ''om text'' @ [CHR 0x0D, newline] @ ''D! tail''])
        (fresh_world :: string world)
     = \<lparr>events = [Log_Warn ''disk full'', Log_Errorf ''stderr: %q'' ''custom text'',
                    Log_Debug ''tail''], once = False\<rparr>
   \<and> list_all (\<lambda>d. d \<noteq> [])
        [''ok'' @ [newline] @ replicate 65535 (CHR ''a''), [CHR ''a'', newline] @ ''W! late'' @ [newline]]
   \<and> concat [''ok'' @ [newline] @ replicate 65535 (CHR ''a''),
              [CHR ''a'', newline] @ ''W! late'' @ [newline]]
       = concat [''ok'' @ [newline]] @ (replicate 65536 (CHR ''a'') @ (newline # ''W! late'' @ [newline]))
   \<and> lines_fit [''ok'' @ [newline]]
   \<and> cmdReadErr (chunked [''ok'' @ [newline] @ replicate 65535 (CHR ''a''),
              [CHR ''a'', newline] @ ''W! late'' @ [newline]]) (fresh_world :: string world)
     = \<lparr>events = [Log_Errorf ''stderr: %q'' ''ok'',
                    AddError (Errorf ''error reading stderr: '' bufio_ErrTooLong)], once = False\<rparr>
   \<and> Scan \<lparr>s_r = [], s_data = [], s_start = 3, s_len = 4096, s_maxTokenSize = 65536,
             s_token = Some ''ok'', s_err = Some (ErrorNew ''io'')\<rparr>
     = (False, \<lparr>s_r = [], s_data = [], s_start = 0, s_len = 4096, s_maxTokenSize = 65536,
             s_token = None, s_err = Some (ErrorNew ''io'')\<rparr>)
   \<and> cmdReadErr_loop (NewScanner [(''ok'' @ [newline], Some (ErrorNew ''io''))]) (fresh_world :: string world)
     = (\<lparr>s_r = [], s_data = [], s_start = 0, s_len = 4096, s_maxTokenSize = 65536,
             s_token = None, s_err = Some (ErrorNew ''io'')\<rparr>,
        \<lparr>events = [Log_Errorf ''stderr: %q'' ''ok''], once = False\<rparr>)
   \<and> cmdReadErr [(''ok'' @ [newline], Some (ErrorNew ''io''))] (fresh_world :: string world)
     = \<lparr>events = [Log_Errorf ''stderr: %q'' ''ok'',
                    AddError (Errorf ''error reading stderr: '' (ErrorNew ''io''))], once = False\<rparr>"
proof -
  let ?chunksA = "[''W! disk full'' @ [newline] @ ''cust'',
      ''om text'' @ [CHR 0x0D, newline] @ ''D! tail'']"
  let ?lsA = "[''W! disk full'' @ [newline], ''custom text'' @ [CHR 0x0D, newline]]"
  let ?chunksB = "[''ok'' @ [newline] @ replicate 65535 (CHR ''a''),
      [CHR ''a'', newline] @ ''W! late'' @ [newline]]"
  let ?lsB = "[''ok'' @ [newline]]"
  let ?pre = "replicate 65536 (CHR ''a'')"
  let ?tail = "newline # ''W! late'' @ [newline]"
  let ?sA = "\<lparr>s_r = [], s_data = [], s_start = 3, s_len = 4096, s_maxTokenSize = 65536,
             s_token = Some ''ok'', s_err = Some (ErrorNew ''io'')\<rparr>"
  let ?sB = "\<lparr>s_r = [], s_data = [], s_start = 0, s_len = 4096, s_maxTokenSize = 65536,
             s_token = None, s_err = Some (ErrorNew ''io'')\<rparr>"
  let ?out = "[(''ok'' @ [newline], Some (ErrorNew ''io''))]"
  let ?w = "\<lparr>events = [Log_Errorf ''stderr: %q'' ''ok''], once = False\<rparr> :: string world"
  have a1: "list_all (\<lambda>d. d \<noteq> []) ?chunksA" by simp
  have a2: "concat ?chunksA = concat ?lsA @ ''D! tail''" by simp
  have a3: "lines_fit ?lsA"
    by (simp add: lines_fit_def is_record_def newline_def MaxScanTokenSize_def)
  have b1: "list_all (\<lambda>d. d \<noteq> []) ?chunksB" by simp
  have rep: "replicate 65535 (CHR ''a'') @ [CHR ''a''] = ?pre"
  proof -
    have "?pre = replicate (65535 + 1) (CHR ''a'')" by simp
    also have "\<dots> = replicate 65535 (CHR ''a'') @ replicate 1 (CHR ''a'')"
      by (rule replicate_add)
    finally show ?thesis by simp
  qed
  have b2: "concat ?chunksB = concat ?lsB @ (?pre @ ?tail)"
    using rep by simp
  have b3: "lines_fit ?lsB"
    by (simp add: lines_fit_def is_record_def newline_def MaxScanTokenSize_def)
  have sc: "Scan ?sA = (False, ?sB)" by (simp add: scan_eval split del: if_split)
  have lp: "cmdReadErr_loop (NewScanner ?out) (fresh_world :: string world) = (?sB, ?w)"
    by (simp add: scan_eval cmdReadErr_eval split del: if_split)
  have er: "Err ?sB = Some (ErrorNew ''io'')" by (simp add: Err_def)
  note tA = cmdReadErr_lines_bounded[OF a1 a2 a3, where w = "fresh_world :: string world"
      and out = ?out and w0 = "fresh_world :: string world" and sc = ?sB and w' = ?w
      and scanner = ?sA and scanner' = ?sB and ?w1.0 = "fresh_world :: string world"]
  note tB = cmdReadErr_lines_bounded[OF b1 b2 b3, where w = "fresh_world :: string world"
      and pre = ?pre and tail = ?tail]
  have a: "cmdReadErr (chunked ?chunksA) (fresh_world :: string world)
     = \<lparr>events = [Log_Warn ''disk full'', Log_Errorf ''stderr: %q'' ''custom text'',
                    Log_Debug ''tail''], once = False\<rparr>"
    using tA[THEN conjunct2, THEN conjunct1]
    by (simp add: newline_def line_text_def dropCR_def cmdReadErr_eval MaxScanTokenSize_def)
  have b: "cmdReadErr (chunked ?chunksB) (fresh_world :: string world)
     = \<lparr>events = [Log_Errorf ''stderr: %q'' ''ok'',
                    AddError (Errorf ''error reading stderr: '' bufio_ErrTooLong)], once = False\<rparr>"
    using tB[THEN conjunct2, THEN conjunct2, THEN conjunct1]
    by (simp add: newline_def line_text_def dropCR_def cmdReadErr_eval MaxScanTokenSize_def)
  have c: "cmdReadErr ?out (fresh_world :: string world)
     = \<lparr>events = [Log_Errorf ''stderr: %q'' ''ok'',
                    AddError (Errorf ''error reading stderr: '' (ErrorNew ''io''))], once = False\<rparr>"
    using tA[THEN conjunct2, THEN conjunct2, THEN conjunct2, THEN conjunct2] lp er
    by (simp add: emit_def)
  show ?thesis by (intro conjI a1 a2 a3 a b1 b2 b3 b sc lp c)
qed

text \<open>
  C8, as the claim states it, fails: a line of 65536 bytes followed by a newline is not
  processed as one logical line. The scanner gives up with \<open>bufio.ErrTooLong\<close>, the line is
  never routed and the only call is the report of the error.
\<close>

theorem cmdReadErr_long_line_counterexample:
  "cmdReadErr [(replicate 65536 (CHR ''a'') @ [newline], None)] (fresh_world :: string world)
     = \<lparr>events = [AddError (Errorf ''error reading stderr: '' bufio_ErrTooLong)], once = False\<rparr>
   \<and> cmdReadErr [(replicate 65536 (CHR ''a'') @ [newline], None)] (fresh_world :: string world)
     \<noteq> route_line (replicate 65536 (CHR ''a'')) fresh_world"
proof -
  have 1: "cmdReadErr [(replicate 65536 (CHR ''a'') @ [newline], None)] (fresh_world :: string world)
     = \<lparr>events = [AddError (Errorf ''error reading stderr: '' bufio_ErrTooLong)], once = False\<rparr>"
    by (simp add: scan_eval cmdReadErr_eval IndexByte_notin split del: if_split)
  have 2: "route_line (replicate 65536 (CHR ''a'')) (fresh_world :: string world)
     = \<lparr>events = [Log_Errorf ''stderr: %q'' (replicate 65536 (CHR ''a''))], once = False\<rparr>"
    by (simp add: cmdReadErr_eval)
  show ?thesis unfolding 1 2 by simp
qed

text \<open>
  C9. \<open>Init\<close> returns an error exactly when the command list is empty, and the error is
  "no command specified". \<open>Init\<close> leaves the instance as it is, so it spawns no process; a
  host that calls \<open>Start\<close> only after \<open>Init\<close> succeeded returns this error with the instance
  and the world untouched, and \<open>Start\<close> is not reached.
\<close>
theorem Init_no_command:
  "(Init e \<noteq> None \<longleftrightarrow> Command e = [])
   \<and> (Command e = [] \<longrightarrow>
        Init e = Some (ErrorNew ''no command specified'')
        \<and> host_init_start e new_err start_err w = ((Some (ErrorNew ''no command specified''), e), w))
   \<and> (Command e \<noteq> [] \<longrightarrow>
        Init e = None \<and> host_init_start e new_err start_err w = Start e new_err start_err w)"
  by (simp add: Init_def host_init_start_def)

theorem Init_no_command_witness:
  "Command new_Execd = []
   \<and> Init new_Execd = Some (ErrorNew ''no command specified'')
   \<and> host_init_start new_Execd None None (fresh_world :: string world)
       = ((Some (ErrorNew ''no command specified''), new_Execd), fresh_world)
   \<and> process new_Execd = None
   \<and> Command (new_Execd\<lparr>Command := [''cmd'']\<rparr>) \<noteq> []
   \<and> Init (new_Execd\<lparr>Command := [''cmd'']\<rparr>) = None"
  using Init_no_command[of new_Execd None None "fresh_world :: string world"]
    Init_no_command[of "new_Execd\<lparr>Command := [''cmd'']\<rparr>" None None "fresh_world :: string world"]
  by (simp add: new_Execd_def)

text \<open>
  C10. When the parser returns an error together with a list of metrics, the iteration
  does not stop at the error: after reporting it, the loop treats the list as it treats
  any other. Every metric of the list is added to the accumulator; an empty list is an
  event of no metrics, which logs the notice if \<open>once\<close> has not run yet and marks \<open>once\<close>.
  The loop then goes on with the next record.
\<close>

theorem cmdReadOut_parse_error_metrics:
  assumes "ReadBytes rdr newline = (data, None, rdr')"
    and "P p data = ((metrics, Some err), p')"
  shows "\<exists>w'. cmdReadOut_loop P (rdr, p) w = cmdReadOut_loop P (rdr', p') w'
     \<and> events w' = events w
          @ [Parser_Parse data, AddError (Errorf ''parse error: '' err)]
          @ (if metrics = [] \<and> \<not> once w then [Log_Debug NoMetricsCreatedMsg] else [])
          @ map AddMetric metrics
     \<and> once w' = (once w \<or> metrics = [])"
proof -
  let ?w = "forward_result (metrics, Some err) (emit (Parser_Parse data) w)"
  have "cmdReadOut_iter P (rdr, p) w = (Some (rdr', p'), ?w)"
    using assms by (simp add: cmdReadOut_iter_def parse_record_def)
  then have "cmdReadOut_loop P (rdr, p) w = cmdReadOut_loop P (rdr', p') ?w"
    by (simp add: cmdReadOut_loop.simps[of P "(rdr, p)" w])
  moreover have "events ?w = events w
          @ [Parser_Parse data, AddError (Errorf ''parse error: '' err)]
          @ (if metrics = [] \<and> \<not> once w then [Log_Debug NoMetricsCreatedMsg] else [])
          @ map AddMetric metrics"
    by (simp add: events_forward_result)
  moreover have "once ?w = (once w \<or> metrics = [])"
    by (simp add: once_forward_result)
  ultimately show ?thesis by blast
qed

theorem cmdReadOut_parse_error_metrics_witness:
  "ReadBytes (NewReaderSize (chunked [''half'' @ [newline]]) 16) newline
     = (''half'' @ [newline], None, \<lparr>b_rd = [], b_buf = [], b_size = 16, b_err = None\<rparr>)
   \<and> ex_parser 0 (''half'' @ [newline]) = (([''half''], Some (ErrorNew ''rest lost'')), 1)
   \<and> (\<exists>w'. cmdReadOut_loop ex_parser (NewReaderSize (chunked [''half'' @ [newline]]) 16, 0) fresh_world
         = cmdReadOut_loop ex_parser (\<lparr>b_rd = [], b_buf = [], b_size = 16, b_err = None\<rparr>, 1) w'
       \<and> events w' = [Parser_Parse (''half'' @ [newline]),
             AddError (Errorf ''parse error: '' (ErrorNew ''rest lost'')), AddMetric ''half'']
       \<and> once w' = False)
   \<and> ReadBytes (NewReaderSize (chunked [''bad'' @ [newline]]) 16) newline
     = (''bad'' @ [newline], None, \<lparr>b_rd = [], b_buf = [], b_size = 16, b_err = None\<rparr>)
   \<and> ex_parser 0 (''bad'' @ [newline]) = (([], Some (ParseError ''bad line'')), 1)
   \<and> (\<exists>w'. cmdReadOut_loop ex_parser (NewReaderSize (chunked [''bad'' @ [newline]]) 16, 0) fresh_world
         = cmdReadOut_loop ex_parser (\<lparr>b_rd = [], b_buf = [], b_size = 16, b_err = None\<rparr>, 1) w'
       \<and> events w' = [Parser_Parse (''bad'' @ [newline]),
             AddError (Errorf ''parse error: '' (ParseError ''bad line'')),
             Log_Debug NoMetricsCreatedMsg]
       \<and> once w' = True)"
proof -
  let ?r = "\<lparr>b_rd = [], b_buf = [], b_size = 16, b_err = None\<rparr>"
  have h1: "ReadBytes (NewReaderSize (chunked [''half'' @ [newline]]) 16) newline
     = (''half'' @ [newline], None, ?r)" by code_simp
  have p1: "ex_parser 0 (''half'' @ [newline]) = (([''half''], Some (ErrorNew ''rest lost'')), 1)"
    by code_simp
  have h2: "ReadBytes (NewReaderSize (chunked [''bad'' @ [newline]]) 16) newline
     = (''bad'' @ [newline], None, ?r)" by code_simp
  have p2: "ex_parser 0 (''bad'' @ [newline]) = (([], Some (ParseError ''bad line'')), 1)"
    by code_simp
  have a: "\<exists>w'. cmdReadOut_loop ex_parser (NewReaderSize (chunked [''half'' @ [newline]]) 16, 0) fresh_world
         = cmdReadOut_loop ex_parser (?r, 1) w'
       \<and> events w' = [Parser_Parse (''half'' @ [newline]),
             AddError (Errorf ''parse error: '' (ErrorNew ''rest lost'')), AddMetric ''half'']
       \<and> once w' = False"
    using cmdReadOut_parse_error_metrics[where P = ex_parser and p = 0 and w = fresh_world, OF h1 p1]
    by (simp add: fresh_world_def)
  have b: "\<exists>w'. cmdReadOut_loop ex_parser (NewReaderSize (chunked [''bad'' @ [newline]]) 16, 0) fresh_world
         = cmdReadOut_loop ex_parser (?r, 1) w'
       \<and> events w' = [Parser_Parse (''bad'' @ [newline]),
             AddError (Errorf ''parse error: '' (ParseError ''bad line'')),
             Log_Debug NoMetricsCreatedMsg]
       \<and> once w' = True"
    using cmdReadOut_parse_error_metrics[where P = ex_parser and p = 0 and w = fresh_world, OF h2 p2]
    by (simp add: fresh_world_def)
  show ?thesis by (intro conjI h1 p1 h2 p2 a b)
qed

end
